theory Spec2Isabelle
  imports Complex_Main
begin

section \<open>The drum grid (App component)\<close>

text \<open>
  The instrument catalogue \<open>INSTRUMENTS\<close> is a fixed array of ten records; the grid is an
  object with one array of velocities per instrument id. Every grid the application ever
  holds is built by iterating over \<open>INSTRUMENTS\<close> (initial state, resize, remap) or by
  spreading such a grid (toggle), so it has exactly these ten keys: a grid is a total
  function from instrument ids to velocity arrays. Velocities are JavaScript numbers that
  only ever take integer values; they are modelled as \<open>int\<close>.
\<close>

datatype instrument =
  kick | snare | hihat | hihatFoot | tom2 | tom1 | floorTom | ride | crash1 | crash2

definition INSTRUMENTS :: "instrument list" where
  "INSTRUMENTS = [kick, snare, hihat, hihatFoot, tom2, tom1, floorTom, ride, crash1, crash2]"

definition VELOCITY_CYCLE :: "int list" where
  "VELOCITY_CYCLE = [0, 100]"

fun NOTATION_MAP :: "instrument \<Rightarrow> string" where
  "NOTATION_MAP kick = ''f/4''"
| "NOTATION_MAP snare = ''c/5''"
| "NOTATION_MAP hihat = ''g/5/x2''"
| "NOTATION_MAP hihatFoot = ''f/4/x2''"
| "NOTATION_MAP ride = ''f/5/x2''"
| "NOTATION_MAP crash1 = ''a/5/x2''"
| "NOTATION_MAP crash2 = ''c/6/x2''"
| "NOTATION_MAP tom2 = ''a/4''"
| "NOTATION_MAP tom1 = ''c/5''"
| "NOTATION_MAP floorTom = ''f/4''"

type_synonym grid = "instrument \<Rightarrow> int list"

text \<open>
  \<open>grid[inst][idx]\<close>: reading an array outside its bounds yields \<open>undefined\<close> in
  JavaScript, here \<open>None\<close>.
\<close>

definition cell :: "grid \<Rightarrow> instrument \<Rightarrow> nat \<Rightarrow> int option" where
  "cell g inst idx = (if idx < length (g inst) then Some (g inst ! idx) else None)"

text \<open>\<open>prevGrid[inst.id]?.[idx] ?? 0\<close>: an absent cell reads as 0.\<close>

definition cellOr0 :: "int list \<Rightarrow> nat \<Rightarrow> int" where
  "cellOr0 xs idx = (if idx < length xs then xs ! idx else 0)"

record timeSig =
  sig_n :: nat
  sig_d :: nat

text \<open>
  \<open>Math.round(a / b)\<close> for non-negative integers \<open>a\<close> and positive \<open>b\<close>: the nearest
  integer, a tie going up, which is \<open>\<lfloor>a / b + 1/2\<rfloor>\<close>. The quotient of two integers of this
  size is a tie in double arithmetic exactly when it is one in the rationals, so the
  integer formula is what the code computes. Denominators are positive (the time
  signature's data model, and every option of the time signature selector).
\<close>

definition js_round_div :: "nat \<Rightarrow> nat \<Rightarrow> nat" where
  "js_round_div a b = (2 * a + b) div (2 * b)"

definition computeStepsPerBar :: "timeSig \<Rightarrow> nat \<Rightarrow> nat" where
  "computeStepsPerBar ts res = max 1 (js_round_div (sig_n ts * res) (sig_d ts))"

subsection \<open>remapGrid\<close>

text \<open>
  One iteration of the inner loop body of \<open>remapGrid\<close> for bar \<open>b\<close> and old step \<open>s\<close>.
  The write \<open>out[newGlobal] = \<dots>\<close> lands inside the array whenever
  \<open>newStepsPerBar \<ge> 1\<close>; with \<open>newStepsPerBar = 0\<close> the index is \<open>-1\<close>, which in
  JavaScript sets a property that is no array element, so the array is unchanged.
\<close>

definition remapTarget :: "nat \<Rightarrow> nat \<Rightarrow> nat \<Rightarrow> int" where
  "remapTarget oldStepsPerBar newStepsPerBar s =
     (let newLocal = int (js_round_div (s * newStepsPerBar) oldStepsPerBar)
      in min (int newStepsPerBar - 1) (max 0 newLocal))"

definition remapStep :: "int list \<Rightarrow> nat \<Rightarrow> nat \<Rightarrow> nat \<Rightarrow> nat \<Rightarrow> int list \<Rightarrow> int list" where
  "remapStep prev oldStepsPerBar newStepsPerBar b s out =
     (let oldGlobal = b * oldStepsPerBar + s;
          val = cellOr0 prev oldGlobal
      in if val = 0 then out
         else
           (let clamped = remapTarget oldStepsPerBar newStepsPerBar s;
                newGlobal = int b * int newStepsPerBar + clamped
            in if 0 \<le> newGlobal \<and> nat newGlobal < length out
               then out[nat newGlobal := max (out ! nat newGlobal) val]
               else out))"

definition remapRow :: "int list \<Rightarrow> nat \<Rightarrow> nat \<Rightarrow> nat \<Rightarrow> int list" where
  "remapRow prev oldStepsPerBar newStepsPerBar bars =
     fold (\<lambda>b out. fold (remapStep prev oldStepsPerBar newStepsPerBar b) [0..<oldStepsPerBar] out)
       [0..<bars] (replicate (bars * newStepsPerBar) 0)"

definition remapGrid :: "grid \<Rightarrow> nat \<Rightarrow> nat \<Rightarrow> nat \<Rightarrow> grid" where
  "remapGrid prevGrid oldStepsPerBar newStepsPerBar bars =
     (\<lambda>inst. remapRow (prevGrid inst) oldStepsPerBar newStepsPerBar bars)"

subsection \<open>cycleVelocity\<close>

text \<open>\<open>Array.prototype.indexOf\<close>: the first index holding the value, or \<open>-1\<close>.\<close>

fun indexOf :: "int list \<Rightarrow> int option \<Rightarrow> int" where
  "indexOf [] v = -1"
| "indexOf (x # xs) v =
     (if v = Some x then 0 else (let r = indexOf xs v in if r < 0 then -1 else r + 1))"

definition cycleVelocity :: "grid \<Rightarrow> instrument \<Rightarrow> nat \<Rightarrow> grid" where
  "cycleVelocity prev inst idx =
     (let current = cell prev inst idx;
          nextVal = VELOCITY_CYCLE !
                      nat ((indexOf VELOCITY_CYCLE current + 1) mod int (length VELOCITY_CYCLE))
      in prev(inst := map (\<lambda>(i, v). if i = idx then nextVal else v)
                        (zip [0..<length (prev inst)] (prev inst))))"

text \<open>
  The old steps of a bar that \<open>remapGrid\<close> sends to new step \<open>j\<close> of that bar, in loop
  order, and the values the loop writes to new global index \<open>k\<close> while it runs over the
  old steps \<open>ss\<close> of bar \<open>b\<close>.
\<close>

definition remapSources :: "nat \<Rightarrow> nat \<Rightarrow> nat \<Rightarrow> nat list" where
  "remapSources oldStepsPerBar newStepsPerBar j =
     filter (\<lambda>s. remapTarget oldStepsPerBar newStepsPerBar s = int j) [0..<oldStepsPerBar]"

definition remapHits :: "int list \<Rightarrow> nat \<Rightarrow> nat \<Rightarrow> nat \<Rightarrow> nat \<Rightarrow> nat list \<Rightarrow> int list" where
  "remapHits prev oldStepsPerBar newStepsPerBar b k ss =
     map (\<lambda>s. cellOr0 prev (b * oldStepsPerBar + s))
       (filter (\<lambda>s. cellOr0 prev (b * oldStepsPerBar + s) \<noteq> 0 \<and>
                     int b * int newStepsPerBar + remapTarget oldStepsPerBar newStepsPerBar s = int k) ss)"

section \<open>Transcription (Notation component)\<close>

text \<open>
  A \<open>StaveNote\<close> is built from its keys and a duration string (\<open>"q"\<close>, \<open>"8"\<close>, \<open>"16"\<close>,
  with the suffix \<open>"r"\<close> for a rest); notes get the stem direction 1, rests none. The
  clef is \<open>"percussion"\<close> throughout and is left out.
\<close>

record stave_note =
  keys :: "string list"
  duration :: string
  stem_direction :: "int option"

definition noteEvent :: "string list \<Rightarrow> string \<Rightarrow> stave_note" where
  "noteEvent ks dur = \<lparr>keys = ks, duration = dur, stem_direction = Some 1\<rparr>"

definition restEvent :: "string \<Rightarrow> stave_note" where
  "restEvent dur = \<lparr>keys = [''b/4''], duration = dur, stem_direction = None\<rparr>"

text \<open>\<open>const dur = resolution === 4 ? "q" : resolution === 8 ? "8" : "16"\<close>\<close>

definition nativeDur :: "nat \<Rightarrow> string" where
  "nativeDur resolution = (if resolution = 4 then ''q'' else if resolution = 8 then ''8'' else ''16'')"

text \<open>
  The keys collected at a global step: \<open>val !== 0\<close> holds for every number other than 0
  and for \<open>undefined\<close> (a read past the end of the array).
\<close>

definition keysAt :: "grid \<Rightarrow> nat \<Rightarrow> string list" where
  "keysAt g globalIdx =
     map NOTATION_MAP (filter (\<lambda>inst. cell g inst globalIdx \<noteq> Some 0) INSTRUMENTS)"

definition hasAnyHitAt :: "grid \<Rightarrow> nat \<Rightarrow> bool" where
  "hasAnyHitAt g absIdx = list_ex (\<lambda>inst. cell g inst absIdx \<noteq> Some 0) INSTRUMENTS"

definition isStepEmpty :: "grid \<Rightarrow> nat \<Rightarrow> bool" where
  "isStepEmpty g absIdx = (\<not> hasAnyHitAt g absIdx)"

definition stepsPerBeatOf :: "nat \<Rightarrow> timeSig \<Rightarrow> nat" where
  "stepsPerBeatOf resolution ts = max 1 (js_round_div resolution (sig_d ts))"

definition subInBeatOf :: "nat \<Rightarrow> timeSig \<Rightarrow> nat \<Rightarrow> nat" where
  "subInBeatOf resolution ts s =
     (let stepsPerBeat = stepsPerBeatOf resolution ts
      in if stepsPerBeat = 0 then 0 else s mod stepsPerBeat)"

text \<open>
  The block \<open>if (mergeNotes && !isRest) { \<dots> }\<close>: its tests in source order (eighths in
  x/4, then the two tests for sixteenths in x/4, then sixteenths in x/8), each ending in
  \<open>continue\<close> when it emits; \<open>None\<close> is falling out of the block. The result is the note
  pushed and the number of steps the cursor advances.
\<close>

definition mergeNotesAt ::
  "grid \<Rightarrow> nat \<Rightarrow> nat \<Rightarrow> timeSig \<Rightarrow> nat \<Rightarrow> nat \<Rightarrow> string list \<Rightarrow> (stave_note \<times> nat) option" where
  "mergeNotesAt g resolution stepsPerBar ts b s ks =
     (let stepsPerBeat = stepsPerBeatOf resolution ts;
          subInBeat = subInBeatOf resolution ts s
      in if resolution = 8 \<and> stepsPerBeat = 2 \<and> subInBeat = 0 \<and> s + 1 < stepsPerBar \<and>
            isStepEmpty g (b * stepsPerBar + (s + 1))
         then Some (noteEvent ks ''q'', 2)
         else if resolution = 16 \<and> stepsPerBeat = 4 \<and> subInBeat = 0 \<and> s + 3 < stepsPerBar \<and>
            isStepEmpty g (b * stepsPerBar + (s + 1)) \<and>
            isStepEmpty g (b * stepsPerBar + (s + 2)) \<and>
            isStepEmpty g (b * stepsPerBar + (s + 3))
         then Some (noteEvent ks ''q'', 4)
         else if resolution = 16 \<and> stepsPerBeat = 4 \<and> (subInBeat = 0 \<or> subInBeat = 2) \<and>
            s + 1 < stepsPerBar \<and> isStepEmpty g (b * stepsPerBar + (s + 1))
         then Some (noteEvent ks ''8'', 2)
         else if resolution = 16 \<and> stepsPerBeat = 2 \<and> subInBeat = 0 \<and> s + 1 < stepsPerBar \<and>
            isStepEmpty g (b * stepsPerBar + (s + 1))
         then Some (noteEvent ks ''8'', 2)
         else None)"

text \<open>The block \<open>if (mergeRests && isRest) { \<dots> }\<close>, in the same way.\<close>

definition mergeRestsAt ::
  "grid \<Rightarrow> nat \<Rightarrow> nat \<Rightarrow> timeSig \<Rightarrow> nat \<Rightarrow> nat \<Rightarrow> (stave_note \<times> nat) option" where
  "mergeRestsAt g resolution stepsPerBar ts b s =
     (let stepsPerBeat = stepsPerBeatOf resolution ts;
          subInBeat = subInBeatOf resolution ts s
      in if resolution = 8 \<and> stepsPerBeat = 2 \<and> subInBeat = 0 \<and> s + 1 < stepsPerBar \<and>
            isStepEmpty g (b * stepsPerBar + (s + 1))
         then Some (restEvent ''qr'', 2)
         else if resolution = 16 \<and> stepsPerBeat = 4 \<and> subInBeat = 0 \<and> s + 3 < stepsPerBar \<and>
            isStepEmpty g (b * stepsPerBar + (s + 1)) \<and>
            isStepEmpty g (b * stepsPerBar + (s + 2)) \<and>
            isStepEmpty g (b * stepsPerBar + (s + 3))
         then Some (restEvent ''qr'', 4)
         else if resolution = 16 \<and> stepsPerBeat = 4 \<and> (subInBeat = 0 \<or> subInBeat = 2) \<and>
            s + 1 < stepsPerBar \<and> isStepEmpty g (b * stepsPerBar + (s + 1))
         then Some (restEvent ''8r'', 2)
         else if resolution = 16 \<and> stepsPerBeat = 2 \<and> subInBeat = 0 \<and> s + 1 < stepsPerBar \<and>
            isStepEmpty g (b * stepsPerBar + (s + 1))
         then Some (restEvent ''8r'', 2)
         else None)"

text \<open>One pass through the body of \<open>while (s < stepsPerBar)\<close> at cursor \<open>s\<close> of bar \<open>b\<close>.\<close>

definition stepAt ::
  "grid \<Rightarrow> nat \<Rightarrow> nat \<Rightarrow> timeSig \<Rightarrow> bool \<Rightarrow> bool \<Rightarrow> nat \<Rightarrow> nat \<Rightarrow> stave_note \<times> nat" where
  "stepAt g resolution stepsPerBar ts mergeRests mergeNotes b s =
     (let ks = keysAt g (b * stepsPerBar + s);
          isRest = (length ks = 0)
      in case (if mergeNotes \<and> \<not> isRest then mergeNotesAt g resolution stepsPerBar ts b s ks else None) of
           Some r \<Rightarrow> r
         | None \<Rightarrow>
             (case (if mergeRests \<and> isRest then mergeRestsAt g resolution stepsPerBar ts b s else None) of
                Some r \<Rightarrow> r
              | None \<Rightarrow>
                  if isRest then (restEvent (nativeDur resolution @ ''r''), 1)
                  else (noteEvent ks (nativeDur resolution), 1)))"

function transcribeFrom ::
  "grid \<Rightarrow> nat \<Rightarrow> nat \<Rightarrow> timeSig \<Rightarrow> bool \<Rightarrow> bool \<Rightarrow> nat \<Rightarrow> nat \<Rightarrow> stave_note list" where
  "transcribeFrom g resolution stepsPerBar ts mergeRests mergeNotes b s =
     (if s < stepsPerBar
      then fst (stepAt g resolution stepsPerBar ts mergeRests mergeNotes b s) #
           transcribeFrom g resolution stepsPerBar ts mergeRests mergeNotes b
             (s + snd (stepAt g resolution stepsPerBar ts mergeRests mergeNotes b s))
      else [])"
  by pat_completeness auto
termination
proof (relation "measure (\<lambda>(g, resolution, stepsPerBar, ts, mergeRests, mergeNotes, b, s). stepsPerBar - s)")
  show "wf (measure (\<lambda>(g, resolution, stepsPerBar, ts, mergeRests, mergeNotes, b, s). stepsPerBar - s))"
    by simp
next
  fix g :: grid and resolution stepsPerBar :: nat and ts :: timeSig
    and mergeRests mergeNotes :: bool and b s :: nat
  assume inside: "s < stepsPerBar"
  let ?ks = "keysAt g (b * stepsPerBar + s)"
  let ?n = "if mergeNotes \<and> \<not> length ?ks = 0
            then mergeNotesAt g resolution stepsPerBar ts b s ?ks else None"
  let ?r = "if mergeRests \<and> length ?ks = 0
            then mergeRestsAt g resolution stepsPerBar ts b s else None"
  have adv_notes: "snd r = 2 \<or> snd r = 4"
    if "mergeNotesAt g resolution stepsPerBar ts b s ?ks = Some r" for r
    using that unfolding mergeNotesAt_def Let_def by (auto split: if_splits)
  have adv_rests: "snd r = 2 \<or> snd r = 4"
    if "mergeRestsAt g resolution stepsPerBar ts b s = Some r" for r
    using that unfolding mergeRestsAt_def Let_def by (auto split: if_splits)
  have "0 < snd (stepAt g resolution stepsPerBar ts mergeRests mergeNotes b s)"
  proof (cases ?n)
    case (Some r)
    then have "mergeNotesAt g resolution stepsPerBar ts b s ?ks = Some r"
      by (simp split: if_splits)
    from adv_notes [OF this] Some show ?thesis
      by (auto simp: stepAt_def Let_def simp del: length_0_conv)
  next
    case n: None
    show ?thesis
    proof (cases ?r)
      case (Some r)
      then have "mergeRestsAt g resolution stepsPerBar ts b s = Some r"
        by (simp split: if_splits)
      from adv_rests [OF this] n Some show ?thesis
        by (auto simp: stepAt_def Let_def simp del: length_0_conv)
    next
      case None
      with n show ?thesis
        by (simp add: stepAt_def Let_def del: length_0_conv)
    qed
  qed
  with inside show
    "((g, resolution, stepsPerBar, ts, mergeRests, mergeNotes, b,
       s + snd (stepAt g resolution stepsPerBar ts mergeRests mergeNotes b s)),
      (g, resolution, stepsPerBar, ts, mergeRests, mergeNotes, b, s))
     \<in> measure (\<lambda>(g, resolution, stepsPerBar, ts, mergeRests, mergeNotes, b, s). stepsPerBar - s)"
    by simp
qed

declare transcribeFrom.simps [simp del]

definition transcribeBar ::
  "grid \<Rightarrow> nat \<Rightarrow> nat \<Rightarrow> timeSig \<Rightarrow> bool \<Rightarrow> bool \<Rightarrow> nat \<Rightarrow> stave_note list" where
  "transcribeBar g resolution stepsPerBar ts mergeRests mergeNotes b =
     transcribeFrom g resolution stepsPerBar ts mergeRests mergeNotes b 0"

text \<open>The \<open>notes\<close> arrays of all bars, \<open>for (let b = 0; b < bars; b++)\<close>.\<close>

definition transcribe ::
  "grid \<Rightarrow> nat \<Rightarrow> nat \<Rightarrow> nat \<Rightarrow> timeSig \<Rightarrow> bool \<Rightarrow> bool \<Rightarrow> stave_note list list" where
  "transcribe g resolution bars stepsPerBar ts mergeRests mergeNotes =
     map (transcribeBar g resolution stepsPerBar ts mergeRests mergeNotes) [0..<bars]"

text \<open>
  The length of a duration string in whole notes, as the notation backend reads it: a
  quarter is 1/4, an eighth 1/8, a sixteenth 1/16, for notes and rests alike.
\<close>

definition durationValue :: "string \<Rightarrow> rat" where
  "durationValue dur =
     (if dur = ''q'' \<or> dur = ''qr'' then 1 / 4
      else if dur = ''8'' \<or> dur = ''8r'' then 1 / 8
      else if dur = ''16'' \<or> dur = ''16r'' then 1 / 16
      else 0)"

definition barDuration :: "stave_note list \<Rightarrow> rat" where
  "barDuration notes = sum_list (map (\<lambda>note. durationValue (duration note)) notes)"

subsection \<open>The merge-note rules as a rule list\<close>

text \<open>
  The specification gives the merge-note rules as an ordered list of (predicate, action)
  pairs, the first match winning: quarter at a beat start of sixteenths in x/4, eighth at
  an eighth boundary of sixteenths in x/4, quarter at a beat start of eighths in x/4,
  eighth at a beat start of sixteenths in x/8; with no match, one atomic note.
  \<open>mergeNoteRules\<close> is that list, in that order, over a predicate \<open>nextEmpty k\<close> for "the
  \<open>k\<close>-th next step is empty"; \<open>noteStepWith\<close> is the step it describes.

  The transcription processes each bar on its own, until the bar is exhausted, and its
  merge rules never look across a bar boundary: the next steps of a rule are steps of
  the bar being transcribed. \<open>barNoteStep\<close> is the rule list read so: the \<open>k\<close>-th next
  step is empty when the bar has such a step and it holds no hit.
\<close>

fun firstMatch :: "(bool \<times> 'a) list \<Rightarrow> 'a option" where
  "firstMatch [] = None"
| "firstMatch ((p, a) # rules) = (if p then Some a else firstMatch rules)"

definition mergeNoteRules :: "(nat \<Rightarrow> bool) \<Rightarrow> nat \<Rightarrow> nat \<Rightarrow> nat \<Rightarrow> (bool \<times> string \<times> nat) list" where
  "mergeNoteRules nextEmpty resolution stepsPerBeat subInBeat =
     [(resolution = 16 \<and> stepsPerBeat = 4 \<and> subInBeat = 0 \<and>
         nextEmpty 1 \<and> nextEmpty 2 \<and> nextEmpty 3, ''q'', 4),
      (resolution = 16 \<and> stepsPerBeat = 4 \<and> (subInBeat = 0 \<or> subInBeat = 2) \<and>
         nextEmpty 1, ''8'', 2),
      (resolution = 8 \<and> stepsPerBeat = 2 \<and> subInBeat = 0 \<and> nextEmpty 1, ''q'', 2),
      (resolution = 16 \<and> stepsPerBeat = 2 \<and> subInBeat = 0 \<and> nextEmpty 1, ''8'', 2)]"

definition noteStepWith ::
  "(nat \<Rightarrow> bool) \<Rightarrow> grid \<Rightarrow> nat \<Rightarrow> nat \<Rightarrow> timeSig \<Rightarrow> nat \<Rightarrow> nat \<Rightarrow> stave_note \<times> nat" where
  "noteStepWith nextEmpty g resolution stepsPerBar ts b s =
     (let stepsPerBeat = max 1 (js_round_div resolution (sig_d ts));
          subInBeat = s mod stepsPerBeat;
          pitches = keysAt g (b * stepsPerBar + s)
      in case firstMatch (mergeNoteRules nextEmpty resolution stepsPerBeat subInBeat) of
           Some (dur, advance) \<Rightarrow> (noteEvent pitches dur, advance)
         | None \<Rightarrow> (noteEvent pitches (nativeDur resolution), 1))"

definition barNoteStep :: "grid \<Rightarrow> nat \<Rightarrow> nat \<Rightarrow> timeSig \<Rightarrow> nat \<Rightarrow> nat \<Rightarrow> stave_note \<times> nat" where
  "barNoteStep g resolution stepsPerBar ts b s =
     noteStepWith (\<lambda>k. s + k < stepsPerBar \<and> isStepEmpty g (b * stepsPerBar + s + k))
       g resolution stepsPerBar ts b s"

section \<open>The audio engine (makeAudioEngine)\<close>

text \<open>
  \<open>getGridSnapshot()\<close> returns \<open>{grid, instruments, columns}\<close>. The engine reads the grid
  with \<open>grid[inst.id]?.[stepIndex] ?? 0\<close>, so a row may be absent; \<open>columns\<close> may be absent
  too (\<open>snap.columns ?? 1\<close>). Instruments are given by their ids.
\<close>

record snapshot =
  grid :: "string \<rightharpoonup> int list"
  instruments :: "string list"
  columns :: "int option"

text \<open>
  One \<open>src.start(time)\<close> on the audio backend: the buffer played, the gain set on its gain
  node, and the start time on the audio clock.
\<close>

record source_start =
  src_buffer :: nat
  src_gain :: rat
  src_when :: rat

text \<open>
  The state of one engine. The first ten fields are the variables of the closure:
  \<open>audioCtx\<close> and \<open>master\<close> record whether the context and the master gain exist,
  \<open>onStep\<close> whether a step callback is registered, decoded buffers are named by numbers.
  Times and tempo are JavaScript doubles, modelled as exact rationals.

  The other fields are the environment the code acts on. \<open>intervals\<close> is the window's list of
  active interval timers (\<open>setInterval\<close> adds a fresh positive handle, \<open>clearInterval\<close>
  removes one), \<open>queued\<close> the timer tasks the event loop has queued and not yet run: when
  such a task runs, the callback is invoked only if its handle is still active.
  \<open>resuming\<close> holds the \<open>startStep\<close> of every \<open>play()\<close> suspended at
  \<open>await resumeIfNeeded()\<close>. \<open>started\<close> logs the sources started on the audio backend,
  \<open>stepped\<close> the calls of the step callback.
\<close>

record engine =
  audioCtx :: bool
  master :: bool
  isPlaying :: bool
  bpm :: rat
  resolution :: rat
  currentStep :: int
  nextNoteTime :: rat
  timerId :: "nat option"
  buffers :: "string \<rightharpoonup> nat"
  onStep :: bool
  intervals :: "nat list"
  nextHandle :: nat
  queued :: "nat list"
  resuming :: "int list"
  started :: "source_start list"
  stepped :: "int list"

definition initial :: engine where
  "initial = \<lparr>audioCtx = False, master = False, isPlaying = False, bpm = 120, resolution = 16,
     currentStep = 0, nextNoteTime = 0, timerId = None, buffers = Map.empty, onStep = False,
     intervals = [], nextHandle = 1, queued = [], resuming = [], started = [], stepped = []\<rparr>"

definition scheduleAheadTimeSec :: rat where
  "scheduleAheadTimeSec = 12 / 100"

definition ensureContext :: "engine \<Rightarrow> engine" where
  "ensureContext e = (if audioCtx e then e else e\<lparr>audioCtx := True, master := True\<rparr>)"

definition setBuffers :: "(string \<rightharpoonup> nat) option \<Rightarrow> engine \<Rightarrow> engine" where
  "setBuffers next e = e\<lparr>buffers := (case next of None \<Rightarrow> Map.empty | Some m \<Rightarrow> m)\<rparr>"

definition setTransport :: "rat option \<Rightarrow> rat option \<Rightarrow> engine \<Rightarrow> engine" where
  "setTransport nextBpm nextResolution e =
     (let e1 = (case nextBpm of Some v \<Rightarrow> e\<lparr>bpm := v\<rparr> | None \<Rightarrow> e)
      in case nextResolution of Some v \<Rightarrow> e1\<lparr>resolution := v\<rparr> | None \<Rightarrow> e1)"

definition setOnStep :: "bool \<Rightarrow> engine \<Rightarrow> engine" where
  "setOnStep fn e = e\<lparr>onStep := fn\<rparr>"

definition secondsPerStep :: "engine \<Rightarrow> rat" where
  "secondsPerStep e = (60 / bpm e) * (4 / resolution e)"

definition trigger :: "string \<Rightarrow> rat \<Rightarrow> int \<Rightarrow> engine \<Rightarrow> engine" where
  "trigger instId time velocity e =
     (if \<not> audioCtx e \<or> \<not> master e then e
      else case buffers e instId of
             None \<Rightarrow> e
           | Some buf \<Rightarrow>
               e\<lparr>started := started e @
                    [\<lparr>src_buffer = buf,
                      src_gain = max 0 (min 1 (of_int velocity / 127)),
                      src_when = time\<rparr>]\<rparr>)"

text \<open>\<open>grid[inst.id]?.[stepIndex] ?? 0\<close>\<close>

definition velocityAt :: "(string \<rightharpoonup> int list) \<Rightarrow> string \<Rightarrow> int \<Rightarrow> int" where
  "velocityAt g instId stepIndex =
     (case g instId of
        None \<Rightarrow> 0
      | Some row \<Rightarrow> if 0 \<le> stepIndex \<and> nat stepIndex < length row then row ! nat stepIndex else 0)"

definition scheduleStep :: "(string \<rightharpoonup> int list) \<Rightarrow> string list \<Rightarrow> int \<Rightarrow> rat \<Rightarrow> engine \<Rightarrow> engine" where
  "scheduleStep g insts stepIndex time e =
     (let e1 = fold (\<lambda>inst e. let vel = velocityAt g inst stepIndex
                               in if vel > 0 then trigger inst time vel e else e) insts e
      in if onStep e1 then e1\<lparr>stepped := stepped e1 @ [stepIndex]\<rparr> else e1)"

text \<open>
  The rest of the loop body of \<open>scheduler\<close>: \<open>nextNoteTime += secondsPerStep()\<close>,
  \<open>currentStep += 1\<close>, and the wrap \<open>if (currentStep >= columns) currentStep = 0\<close>, a
  comparison that is false when \<open>columns\<close> is absent.
\<close>

definition advance :: "snapshot \<Rightarrow> engine \<Rightarrow> engine" where
  "advance snap e =
     (let e1 = e\<lparr>nextNoteTime := nextNoteTime e + secondsPerStep e\<rparr>;
          e2 = e1\<lparr>currentStep := currentStep e1 + 1\<rparr>
      in case columns snap of
           Some c \<Rightarrow> if currentStep e2 \<ge> c then e2\<lparr>currentStep := 0\<rparr> else e2
         | None \<Rightarrow> e2)"

text \<open>
  The \<open>while\<close> loop of \<open>scheduler\<close>, run against the audio clock value \<open>now\<close> read during
  the callback. It need not terminate (a non-positive \<open>secondsPerStep()\<close> never reaches
  the horizon): not returning is \<open>None\<close>.
\<close>

partial_function (option) schedulerLoop :: "snapshot \<Rightarrow> rat \<Rightarrow> engine \<Rightarrow> engine option" where
  "schedulerLoop snap now e =
     (if nextNoteTime e < now + scheduleAheadTimeSec
      then schedulerLoop snap now
             (advance snap (scheduleStep (grid snap) (instruments snap) (currentStep e) (nextNoteTime e) e))
      else Some e)"

declare schedulerLoop.simps [code]

definition scheduler :: "snapshot \<Rightarrow> rat \<Rightarrow> engine \<Rightarrow> engine option" where
  "scheduler snap now e = (if \<not> audioCtx e then Some e else schedulerLoop snap now e)"

text \<open>
  \<open>play\<close> is asynchronous. \<open>playCall\<close> is what runs when it is called: \<open>ensureContext()\<close>,
  then the suspension at \<open>await resumeIfNeeded()\<close>. \<open>playBody\<close> is the code after the
  \<open>await\<close>, from \<open>if (isPlaying) return\<close> on, and \<open>playResume\<close> runs it for the oldest
  suspended call, with the snapshot and the audio clock read at that moment. \<open>play\<close> is a
  call whose \<open>await\<close> nothing else interleaves with.
\<close>

definition playBody :: "snapshot \<Rightarrow> int \<Rightarrow> rat \<Rightarrow> engine \<Rightarrow> engine" where
  "playBody snap startStep now e =
     (if isPlaying e then e
      else
        (let maxStep = max 0 ((case columns snap of None \<Rightarrow> 1 | Some c \<Rightarrow> c) - 1)
         in e\<lparr>currentStep := max 0 (min maxStep startStep),
               nextNoteTime := now + 3 / 100,
               isPlaying := True,
               timerId := Some (nextHandle e),
               intervals := intervals e @ [nextHandle e],
               nextHandle := nextHandle e + 1\<rparr>))"

definition play :: "snapshot \<Rightarrow> int \<Rightarrow> rat \<Rightarrow> engine \<Rightarrow> engine" where
  "play snap startStep now e = playBody snap startStep now (ensureContext e)"

definition playCall :: "int \<Rightarrow> engine \<Rightarrow> engine" where
  "playCall startStep e = (ensureContext e)\<lparr>resuming := resuming e @ [startStep]\<rparr>"

definition playResume :: "snapshot \<Rightarrow> rat \<Rightarrow> engine \<Rightarrow> engine" where
  "playResume snap now e =
     (case resuming e of
        [] \<Rightarrow> e
      | startStep # rest \<Rightarrow> playBody snap startStep now (e\<lparr>resuming := rest\<rparr>))"

text \<open>\<open>if (timerId) window.clearInterval(timerId)\<close>: a handle 0 would be falsy.\<close>

definition stop :: "engine \<Rightarrow> engine" where
  "stop e =
     (if \<not> isPlaying e then e
      else
        (let e1 = e\<lparr>isPlaying := False\<rparr>;
             e2 = (case timerId e1 of
                     Some t \<Rightarrow> if t \<noteq> 0 then e1\<lparr>intervals := removeAll t (intervals e1)\<rparr> else e1
                   | None \<Rightarrow> e1)
         in e2\<lparr>timerId := None\<rparr>))"

text \<open>
  The step callback is a function of the host. \<open>scheduleStep\<close> above is the step with a
  callback that makes no call of the engine: the invocation is logged and nothing else
  changes. A callback may also call the engine's methods before it returns, \<open>stop()\<close>
  among them. \<open>call\<close> lists the methods as synchronous calls: \<open>CallPlay\<close> is \<open>play()\<close> up
  to its \<open>await\<close>, \<open>CallEnsureContext\<close> stands for \<open>ensureContext()\<close> and
  \<open>resumeIfNeeded()\<close>, whose effect on the engine's variables is the same, and
  \<open>getContext()\<close> changes nothing. \<open>scheduleStepWith\<close>, \<open>schedulerLoopWith\<close> and
  \<open>schedulerWith\<close> are \<open>scheduleStep\<close>, the loop and \<open>scheduler\<close> with such a callback:
  \<open>cbs\<close> gives the calls the callback makes at its first, second, \<dots> invocation during
  the poll (none once the list is used up), and the loop goes on after each invocation
  as the code does, without testing \<open>isPlaying\<close>. The callback is taken to return
  normally.
\<close>

datatype call =
    CallPlay int
  | CallStop
  | CallSetBuffers "(string \<rightharpoonup> nat) option"
  | CallSetTransport "rat option" "rat option"
  | CallSetOnStep bool
  | CallEnsureContext

fun invoke :: "call \<Rightarrow> engine \<Rightarrow> engine" where
  "invoke (CallPlay startStep) e = playCall startStep e"
| "invoke CallStop e = stop e"
| "invoke (CallSetBuffers nextBuffers) e = setBuffers nextBuffers e"
| "invoke (CallSetTransport nextBpm nextResolution) e = setTransport nextBpm nextResolution e"
| "invoke (CallSetOnStep fn) e = setOnStep fn e"
| "invoke CallEnsureContext e = ensureContext e"

definition scheduleStepWith ::
  "call list list \<Rightarrow> (string \<rightharpoonup> int list) \<Rightarrow> string list \<Rightarrow> int \<Rightarrow> rat \<Rightarrow> engine \<Rightarrow>
     engine \<times> call list list" where
  "scheduleStepWith cbs g insts stepIndex time e =
     (let e1 = fold (\<lambda>inst e. let vel = velocityAt g inst stepIndex
                               in if vel > 0 then trigger inst time vel e else e) insts e
      in if onStep e1
         then (fold invoke (case cbs of [] \<Rightarrow> [] | calls # later \<Rightarrow> calls)
                 (e1\<lparr>stepped := stepped e1 @ [stepIndex]\<rparr>),
               tl cbs)
         else (e1, cbs))"

partial_function (option) schedulerLoopWith ::
  "call list list \<Rightarrow> snapshot \<Rightarrow> rat \<Rightarrow> engine \<Rightarrow> engine option" where
  "schedulerLoopWith cbs snap now e =
     (if nextNoteTime e < now + scheduleAheadTimeSec
      then schedulerLoopWith
             (snd (scheduleStepWith cbs (grid snap) (instruments snap) (currentStep e) (nextNoteTime e) e))
             snap now
             (advance snap
                (fst (scheduleStepWith cbs (grid snap) (instruments snap) (currentStep e)
                        (nextNoteTime e) e)))
      else Some e)"

declare schedulerLoopWith.simps [code]

definition schedulerWith :: "call list list \<Rightarrow> snapshot \<Rightarrow> rat \<Rightarrow> engine \<Rightarrow> engine option" where
  "schedulerWith cbs snap now e =
     (if \<not> audioCtx e then Some e else schedulerLoopWith cbs snap now e)"

text \<open>
  What can happen to an engine, one event at a time on the single thread: a call of one
  of its methods from outside a poll, the resumption of a suspended \<open>play()\<close>, an
  interval timer coming due (\<open>TimerDue\<close> queues its task) and the event loop running the
  oldest queued timer task (\<open>RunTimerTask\<close>, with what the step callback does during
  that poll).
\<close>

datatype event =
    Call call
  | PlayResume snapshot rat
  | TimerDue nat
  | RunTimerTask "call list list" snapshot rat

fun isPlayCall :: "event \<Rightarrow> bool" where
  "isPlayCall (Call (CallPlay startStep)) = True"
| "isPlayCall ev = False"

fun isPlayResume :: "event \<Rightarrow> bool" where
  "isPlayResume (PlayResume snap now) = True"
| "isPlayResume ev = False"

fun exec :: "event \<Rightarrow> engine \<Rightarrow> engine option" where
  "exec (Call c) e = Some (invoke c e)"
| "exec (PlayResume snap now) e = Some (playResume snap now e)"
| "exec (TimerDue t) e = Some (if t \<in> set (intervals e) then e\<lparr>queued := queued e @ [t]\<rparr> else e)"
| "exec (RunTimerTask cbs snap now) e =
     (case queued e of
        [] \<Rightarrow> Some e
      | t # rest \<Rightarrow>
          (let e1 = e\<lparr>queued := rest\<rparr>
           in if t \<in> set (intervals e1) then schedulerWith cbs snap now e1 else Some e1))"

fun run :: "event list \<Rightarrow> engine \<Rightarrow> engine option" where
  "run [] e = Some e"
| "run (ev # evs) e = (case exec ev e of None \<Rightarrow> None | Some e' \<Rightarrow> run evs e')"

text \<open>\<open>clamp(x, lo, hi)\<close> of the specification.\<close>

definition clamp :: "int \<Rightarrow> int \<Rightarrow> int \<Rightarrow> int" where
  "clamp x lo hi = max lo (min hi x)"

text \<open>
  The sources one \<open>trigger\<close> call starts (none or one), the sources one \<open>scheduleStep\<close>
  starts, and one pass through the body of the scheduler's loop.
\<close>

definition sourcesFor :: "engine \<Rightarrow> string \<Rightarrow> rat \<Rightarrow> int \<Rightarrow> source_start list" where
  "sourcesFor e instId time velocity =
     (if audioCtx e \<and> master e
      then case buffers e instId of
             None \<Rightarrow> []
           | Some buf \<Rightarrow> [\<lparr>src_buffer = buf, src_gain = max 0 (min 1 (of_int velocity / 127)),
                           src_when = time\<rparr>]
      else [])"

definition stepSources ::
  "engine \<Rightarrow> (string \<rightharpoonup> int list) \<Rightarrow> string list \<Rightarrow> int \<Rightarrow> rat \<Rightarrow> source_start list" where
  "stepSources e g insts stepIndex time =
     concat (map (\<lambda>inst. if velocityAt g inst stepIndex > 0
                          then sourcesFor e inst time (velocityAt g inst stepIndex) else []) insts)"

definition loopBody :: "snapshot \<Rightarrow> engine \<Rightarrow> engine" where
  "loopBody snap e =
     advance snap (scheduleStep (grid snap) (instruments snap) (currentStep e) (nextNoteTime e) e)"

text \<open>
  \<open>pollFrame e e'\<close>: \<open>e'\<close> differs from \<open>e\<close> at most in the two logs, the cursor and
  \<open>nextNoteTime\<close>. \<open>timerInv\<close>: the engine's handle is the one active interval while it
  plays, and there is none while it is stopped. \<open>silent\<close>: stopped with no active interval.
  \<open>sameOutput e e'\<close>: nothing was triggered or advanced between \<open>e\<close> and \<open>e'\<close>.
\<close>

definition pollFrame :: "engine \<Rightarrow> engine \<Rightarrow> bool" where
  "pollFrame e e' \<longleftrightarrow>
     e' = e\<lparr>started := started e', stepped := stepped e',
             nextNoteTime := nextNoteTime e', currentStep := currentStep e'\<rparr>"

definition timerInv :: "engine \<Rightarrow> bool" where
  "timerInv e \<longleftrightarrow>
     0 < nextHandle e \<and> (isPlaying e \<longleftrightarrow> timerId e \<noteq> None) \<and> timerId e \<noteq> Some 0 \<and>
     intervals e = (case timerId e of None \<Rightarrow> [] | Some t \<Rightarrow> [t])"

definition silent :: "engine \<Rightarrow> bool" where
  "silent e \<longleftrightarrow> \<not> isPlaying e \<and> timerId e = None \<and> intervals e = []"

definition sameOutput :: "engine \<Rightarrow> engine \<Rightarrow> bool" where
  "sameOutput e e' \<longleftrightarrow>
     started e' = started e \<and> stepped e' = stepped e \<and>
     currentStep e' = currentStep e \<and> nextNoteTime e' = nextNoteTime e"

text \<open>\<open>sameTransport e f\<close>: \<open>f\<close> differs from \<open>e\<close> at most in its buffers and its log of started sources.\<close>

definition sameTransport :: "engine \<Rightarrow> engine \<Rightarrow> bool" where
  "sameTransport e f \<longleftrightarrow> f = e\<lparr>buffers := buffers f, started := started f\<rparr>"

section \<open>Properties of remapGrid\<close>

lemma length_remapStep [simp]: "length (remapStep prev old new b s out) = length out"
  by (simp add: remapStep_def Let_def)

lemma length_fold_remapStep [simp]:
  "length (fold (remapStep prev old new b) ss out) = length out"
  by (induction ss arbitrary: out) simp_all

lemma length_remapRow [simp]: "length (remapRow prev old new bars) = bars * new"
proof -
  have "length (fold (\<lambda>b out. fold (remapStep prev old new b) [0..<old] out) bs out) = length out"
    for bs out
    by (induction bs arbitrary: out) simp_all
  then show ?thesis by (simp add: remapRow_def)
qed

lemma remapStep_nth:
  assumes "k < length out"
  shows "remapStep prev old new b s out ! k =
           fold max (remapHits prev old new b k [s]) (out ! k)"
  using assms
  by (auto simp: remapStep_def remapHits_def Let_def nth_list_update max.commute)

lemma remapHits_Cons:
  "remapHits prev old new b k (s # ss) = remapHits prev old new b k [s] @ remapHits prev old new b k ss"
  by (simp add: remapHits_def)

lemma fold_remapStep_nth:
  assumes "k < length out"
  shows "fold (remapStep prev old new b) ss out ! k =
           fold max (remapHits prev old new b k ss) (out ! k)"
  using assms
proof (induction ss arbitrary: out)
  case Nil
  then show ?case by (simp add: remapHits_def)
next
  case (Cons s ss)
  have "fold (remapStep prev old new b) (s # ss) out ! k =
        fold max (remapHits prev old new b k ss) (remapStep prev old new b s out ! k)"
    using Cons.IH [of "remapStep prev old new b s out"] Cons.prems by simp
  also have "\<dots> = fold max (remapHits prev old new b k ss)
                     (fold max (remapHits prev old new b k [s]) (out ! k))"
    using Cons.prems by (simp only: remapStep_nth)
  also have "\<dots> = fold max (remapHits prev old new b k (s # ss)) (out ! k)"
    by (subst (2) remapHits_Cons) simp
  finally show ?case .
qed

lemma fold_bars_nth:
  assumes "k < length out"
  shows "fold (\<lambda>b out. fold (remapStep prev old new b) [0..<old] out) bs out ! k =
           fold max (concat (map (\<lambda>b. remapHits prev old new b k [0..<old]) bs)) (out ! k)"
  using assms
proof (induction bs arbitrary: out)
  case Nil
  then show ?case by simp
next
  case (Cons b bs)
  let ?out' = "fold (remapStep prev old new b) [0..<old] out"
  have "k < length ?out'" using Cons.prems by simp
  from Cons.IH [OF this] show ?case
    using Cons.prems by (simp add: fold_remapStep_nth)
qed

lemma remapTarget_range:
  assumes "0 < new"
  shows "0 \<le> remapTarget old new s" "remapTarget old new s < int new"
  using assms by (auto simp: remapTarget_def Let_def)

lemma remapHits_other_bar:
  assumes "0 < new" "j < new" "b \<noteq> b0"
  shows "remapHits prev old new b (b0 * new + j) ss = []"
proof -
  have "int b * int new + remapTarget old new s \<noteq> int (b0 * new + j)" for s
  proof
    assume eq: "int b * int new + remapTarget old new s = int (b0 * new + j)"
    define t where "t = nat (remapTarget old new s)"
    have t: "remapTarget old new s = int t" "t < new"
      using remapTarget_range [OF assms(1), of old s] by (auto simp: t_def)
    from eq t have "b * new + t = b0 * new + j"
      by (metis (mono_tags, opaque_lifting) of_nat_add of_nat_eq_iff of_nat_mult)
    then have "(b * new + t) div new = (b0 * new + j) div new" by simp
    with t assms show False by simp
  qed
  then show ?thesis by (simp add: remapHits_def)
qed

lemma concat_single:
  assumes "b0 < n" "\<And>b. b \<noteq> b0 \<Longrightarrow> f b = []"
  shows "concat (map f [0..<n]) = f b0"
proof -
  have split: "[0..<n] = [0..<b0] @ b0 # [Suc b0..<n]"
    using assms(1) by (metis le_add1 less_imp_add_positive upt_add_eq_append upt_conv_Cons zero_le add_0)
  have a: "concat (map f [0..<b0]) = []" using assms(2) by auto
  have b: "concat (map f [Suc b0..<n]) = []" using assms(2) by auto
  have "concat (map f [0..<n]) = concat (map f [0..<b0]) @ f b0 @ concat (map f [Suc b0..<n])"
    by (subst split) simp
  with a b show ?thesis by (simp only: append_Nil append_Nil2)
qed

lemma remapRow_nth:
  assumes "0 < new" "b0 < bars" "j < new"
  shows "remapRow prev old new bars ! (b0 * new + j) =
           fold max (remapHits prev old new b0 (b0 * new + j) [0..<old]) 0"
proof -
  have k: "b0 * new + j < bars * new"
  proof -
    have "b0 * new + j < b0 * new + new" using assms by simp
    also have "\<dots> = Suc b0 * new" by simp
    also have "\<dots> \<le> bars * new" using assms(2) by (intro mult_le_mono1) simp
    finally show ?thesis .
  qed
  have "concat (map (\<lambda>b. remapHits prev old new b (b0 * new + j) [0..<old]) [0..<bars]) =
        remapHits prev old new b0 (b0 * new + j) [0..<old]"
    using assms by (intro concat_single) (simp_all add: remapHits_other_bar)
  then show ?thesis
    using k by (simp add: remapRow_def fold_bars_nth)
qed

lemma fold_max_Max: "fold max xs (a::int) = Max (insert a (set xs))"
  by (metis Max.set_eq_fold list.simps(15))

lemma remapHits_sources:
  assumes "0 < new" "j < new"
  shows "remapHits prev old new b (b * new + j) [0..<old] =
         filter (\<lambda>v. v \<noteq> 0) (map (\<lambda>s. cellOr0 prev (b * old + s)) (remapSources old new j))"
proof -
  have "(int b * int new + remapTarget old new s = int (b * new + j)) = (remapTarget old new s = int j)" for s
    by simp
  then show ?thesis
    by (simp add: remapHits_def remapSources_def filter_map comp_def conj_commute)
qed

lemma remapRow_nth_Max:
  assumes "0 < new" "b < bars" "j < new"
  shows "remapRow prev old new bars ! (b * new + j) =
         Max (insert 0 {v \<in> (\<lambda>s. cellOr0 prev (b * old + s)) ` set (remapSources old new j). v \<noteq> 0})"
  using assms by (simp add: remapRow_nth remapHits_sources fold_max_Max)

lemma Max_drop_zero:
  assumes "finite A" "A \<noteq> {}" "\<forall>v\<in>A. (0::int) \<le> v"
  shows "Max (insert 0 {v \<in> A. v \<noteq> 0}) = Max A"
proof -
  have fin: "finite {v \<in> A. v \<noteq> 0}" using assms(1) by simp
  show ?thesis
  proof (rule antisym)
    show "Max (insert 0 {v \<in> A. v \<noteq> 0}) \<le> Max A"
    proof -
      have "\<forall>x\<in>insert 0 {v \<in> A. v \<noteq> 0}. x \<le> Max A"
      proof
        fix x assume "x \<in> insert 0 {v \<in> A. v \<noteq> 0}"
        then consider "x = 0" | "x \<in> A" by auto
        then show "x \<le> Max A"
        proof cases
          case 1
          obtain a where "a \<in> A" using assms(2) by auto
          then have "0 \<le> a" "a \<le> Max A" using assms by auto
          with 1 show ?thesis by simp
        next
          case 2
          then show ?thesis using assms(1) by simp
        qed
      qed
      then show ?thesis using fin by simp
    qed
    show "Max A \<le> Max (insert 0 {v \<in> A. v \<noteq> 0})"
    proof -
      have "\<forall>x\<in>A. x \<le> Max (insert 0 {v \<in> A. v \<noteq> 0})"
      proof
        fix x assume "x \<in> A"
        show "x \<le> Max (insert 0 {v \<in> A. v \<noteq> 0})"
        proof (cases "x = 0")
          case True
          then show ?thesis using fin by simp
        next
          case False
          with \<open>x \<in> A\<close> have "x \<in> insert 0 {v \<in> A. v \<noteq> 0}" by simp
          then show ?thesis using fin by (intro Max_ge) simp_all
        qed
      qed
      then show ?thesis using assms by simp
    qed
  qed
qed

text \<open>
  Claim C3. In \<open>remapGrid\<close>, the new step \<open>j\<close> of bar \<open>b\<close> holds the largest of 0 and
  the non-zero velocities of the old steps of that bar that map to it
  (\<open>remapSources\<close>: those whose rounded, clamped position is \<open>j\<close>); zero-velocity old
  steps contribute nothing. When at least one old step maps there (in particular when two
  or more collide) and their velocities are non-negative, as velocities are, this is the
  maximum of the velocities of those old steps.
\<close>

theorem remapGrid_collision_max:
  assumes "0 < newStepsPerBar" "b < bars" "j < newStepsPerBar"
  shows "remapGrid g oldStepsPerBar newStepsPerBar bars inst ! (b * newStepsPerBar + j) =
           Max (insert 0 {v \<in> (\<lambda>s. cellOr0 (g inst) (b * oldStepsPerBar + s)) `
                               set (remapSources oldStepsPerBar newStepsPerBar j). v \<noteq> 0})
         \<and> (remapSources oldStepsPerBar newStepsPerBar j \<noteq> [] \<and>
            (\<forall>s \<in> set (remapSources oldStepsPerBar newStepsPerBar j).
                0 \<le> cellOr0 (g inst) (b * oldStepsPerBar + s))
            \<longrightarrow> remapGrid g oldStepsPerBar newStepsPerBar bars inst ! (b * newStepsPerBar + j) =
                  Max ((\<lambda>s. cellOr0 (g inst) (b * oldStepsPerBar + s)) `
                         set (remapSources oldStepsPerBar newStepsPerBar j)))"
proof -
  let ?A = "(\<lambda>s. cellOr0 (g inst) (b * oldStepsPerBar + s)) ` set (remapSources oldStepsPerBar newStepsPerBar j)"
  have 1: "remapGrid g oldStepsPerBar newStepsPerBar bars inst ! (b * newStepsPerBar + j) =
           Max (insert 0 {v \<in> ?A. v \<noteq> 0})"
    unfolding remapGrid_def using assms by (rule remapRow_nth_Max)
  have 2: "Max (insert 0 {v \<in> ?A. v \<noteq> 0}) = Max ?A"
    if "remapSources oldStepsPerBar newStepsPerBar j \<noteq> []"
       "\<forall>s \<in> set (remapSources oldStepsPerBar newStepsPerBar j). 0 \<le> cellOr0 (g inst) (b * oldStepsPerBar + s)"
    using that by (intro Max_drop_zero) auto
  from 1 2 show ?thesis by simp
qed

theorem remapGrid_collision_max_witness:
  "remapSources 4 2 1 = [1, 2, 3] \<and>
   remapGrid (\<lambda>_. [100, 0, 60, 90]) 4 2 1 kick ! (0 * 2 + 1) = 90"
proof -
  have src: "remapSources 4 2 1 = [1, 2, 3]" by code_simp
  have nonneg: "\<forall>s \<in> set (remapSources 4 2 1). 0 \<le> cellOr0 ((\<lambda>_. [100, 0, 60, 90]) kick) (0 * 4 + s)"
    unfolding src by (simp add: cellOr0_def)
  have "remapGrid (\<lambda>_. [100, 0, 60, 90]) 4 2 1 kick ! (0 * 2 + 1) =
        Max ((\<lambda>s. cellOr0 ((\<lambda>_. [100, 0, 60, 90]) kick) (0 * 4 + s)) ` set (remapSources 4 2 1))"
    using remapGrid_collision_max [of 2 0 1 1 "\<lambda>_. [100, 0, 60, 90]" 4 kick] nonneg src by simp
  then show ?thesis unfolding src by (simp add: cellOr0_def)
qed

lemma remapTarget_same:
  assumes "s < n"
  shows "remapTarget n n s = int s"
proof -
  have e: "2 * (s * n) + n = n + s * (2 * n)" by simp
  have "(n + s * (2 * n)) div (2 * n) = s" using assms by simp
  then have "(2 * (s * n) + n) div (2 * n) = s" by (simp only: e)
  then show ?thesis using assms by (simp add: remapTarget_def js_round_div_def Let_def)
qed

lemma remapSources_same:
  assumes "j < n"
  shows "remapSources n n j = [j]"
proof -
  have "filter (\<lambda>s. remapTarget n n s = int j) [0..<n] = filter (\<lambda>s. s = j) [0..<n]"
    by (rule filter_cong) (auto simp: remapTarget_same)
  also have "\<dots> = [j]"
  proof -
    have "[0..<n] = [0..<j] @ j # [Suc j..<n]"
      using assms by (metis le_add1 less_imp_add_positive upt_add_eq_append upt_conv_Cons zero_le add_0)
    then show ?thesis by (simp add: filter_empty_conv)
  qed
  finally show ?thesis by (simp add: remapSources_def)
qed

lemma remapRow_identity:
  assumes "0 < n" "length xs = bars * n" "\<forall>v\<in>set xs. 0 \<le> v"
  shows "remapRow xs n n bars = xs"
proof (rule nth_equalityI)
  show "length (remapRow xs n n bars) = length xs" using assms by simp
next
  fix k assume "k < length (remapRow xs n n bars)"
  then have k: "k < bars * n" by simp
  define b where "b = k div n"
  define j where "j = k mod n"
  have j: "j < n" using assms(1) by (simp add: j_def)
  have kk: "k = b * n + j" by (simp add: b_def j_def)
  have b: "b < bars" using k assms(1) by (simp add: b_def less_mult_imp_div_less)
  have nonneg: "0 \<le> xs ! k" using assms k by simp
  have "{v. v = xs ! k \<and> v \<noteq> 0} = (if xs ! k = 0 then {} else {xs ! k})" by auto
  with nonneg have "Max (insert 0 {v. v = xs ! k \<and> v \<noteq> 0}) = xs ! k" by simp
  moreover have "remapRow xs n n bars ! (b * n + j) =
                 Max (insert 0 {v. v = xs ! (b * n + j) \<and> v \<noteq> 0})"
    using assms k kk j b by (simp add: remapRow_nth_Max remapSources_same cellOr0_def)
  ultimately show "remapRow xs n n bars ! k = xs ! k"
    by (simp add: kk)
qed

text \<open>
  Claim C4. Remapping with unchanged steps per bar is the identity: for \<open>n \<ge> 1\<close> and a
  grid whose rows all have length \<open>bars \<times> n\<close> and hold non-negative velocities,
  \<open>remapGrid g n n bars = g\<close>.
\<close>

theorem remapGrid_identity:
  assumes "0 < n" "\<forall>inst. length (g inst) = bars * n \<and> (\<forall>v\<in>set (g inst). 0 \<le> v)"
  shows "remapGrid g n n bars = g"
  using assms by (auto simp: remapGrid_def remapRow_identity)

theorem remapGrid_identity_witness:
  "remapGrid (\<lambda>_. [100, 0, 0, 100]) 2 2 2 = (\<lambda>_. [100, 0, 0, 100])"
  using remapGrid_identity [of 2 "\<lambda>_. [100, 0, 0, 100]" 2] by simp

section \<open>Properties of cycleVelocity\<close>

lemma cyc_map: "map (\<lambda>(i, v). if i = idx then x else v) (zip [0..<length xs] xs) = (if idx < length xs then xs[idx := x] else xs)"
  by (auto intro!: nth_equalityI)

lemma indexOf_cycle: "indexOf VELOCITY_CYCLE v = (if v = Some 0 then 0 else if v = Some 100 then 1 else -1)"
  by (simp add: VELOCITY_CYCLE_def)

lemma cycleVelocity_eq: "cycleVelocity g inst idx = 
  (if idx < length (g inst) then g(inst := (g inst)[idx := (if g inst ! idx = 0 then 100 else 0)]) else g)"
  unfolding cycleVelocity_def Let_def cyc_map indexOf_cycle
  by (auto simp: cell_def VELOCITY_CYCLE_def fun_eq_iff)

text \<open>
  Claim C10. For a cell holding a value of the velocity cycle \<open>[0, 100]\<close>, one toggle
  changes the cell to the other value of the cycle and a second toggle restores the whole
  grid, so the cell is back at its original value. A toggle changes the targeted cell
  only: every other index of that instrument and every cell of every other instrument
  reads as before, and no row changes its length.
\<close>

theorem cycleVelocity_twice_and_frame:
  "(\<forall>v. cell g inst idx = Some v \<and> v \<in> set VELOCITY_CYCLE \<longrightarrow>
        cell (cycleVelocity g inst idx) inst idx \<noteq> Some v \<and>
        cell (cycleVelocity g inst idx) inst idx \<in> Some ` set VELOCITY_CYCLE \<and>
        cycleVelocity (cycleVelocity g inst idx) inst idx = g)
   \<and> (\<forall>inst' j. \<not> (inst' = inst \<and> j = idx) \<longrightarrow>
          cell (cycleVelocity g inst idx) inst' j = cell g inst' j)
   \<and> (\<forall>inst'. length (cycleVelocity g inst idx inst') = length (g inst'))"
proof (intro conjI allI impI)
  fix v assume "cell g inst idx = Some v \<and> v \<in> set VELOCITY_CYCLE"
  then have a: "idx < length (g inst)" "g inst ! idx = v" "v = 0 \<or> v = 100"
    by (auto simp: cell_def VELOCITY_CYCLE_def split: if_splits)
  then show "cell (cycleVelocity g inst idx) inst idx \<noteq> Some v"
    by (auto simp: cycleVelocity_eq cell_def)
  from a show "cell (cycleVelocity g inst idx) inst idx \<in> Some ` set VELOCITY_CYCLE"
    by (auto simp: cycleVelocity_eq cell_def VELOCITY_CYCLE_def)
  from a show "cycleVelocity (cycleVelocity g inst idx) inst idx = g"
    by (auto simp: cycleVelocity_eq fun_eq_iff list_update_same_conv)
next
  fix inst' j assume "\<not> (inst' = inst \<and> j = idx)"
  then show "cell (cycleVelocity g inst idx) inst' j = cell g inst' j"
    by (auto simp: cycleVelocity_eq cell_def)
next
  fix inst'
  show "length (cycleVelocity g inst idx inst') = length (g inst')"
    by (simp add: cycleVelocity_eq)
qed

theorem cycleVelocity_twice_and_frame_witness:
  "cell (\<lambda>_. [0, 100, 0]) snare 1 = Some 100 \<and> 100 \<in> set VELOCITY_CYCLE \<and>
   cell (cycleVelocity (\<lambda>_. [0, 100, 0]) snare 1) snare 1 = Some 0 \<and>
   cycleVelocity (cycleVelocity (\<lambda>_. [0, 100, 0]) snare 1) snare 1 = (\<lambda>_. [0, 100, 0]) \<and>
   cell (cycleVelocity (\<lambda>_. [0, 100, 0]) snare 1) kick 1 = Some 100 \<and>
   cell (cycleVelocity (\<lambda>_. [0, 100, 0]) snare 1) snare 2 = Some 0 \<and>
   length (cycleVelocity (\<lambda>_. [0, 100, 0]) snare 1 snare) = 3"
proof -
  have c: "cell (\<lambda>_. [0, 100, 0]) snare 1 = Some 100 \<and> 100 \<in> set VELOCITY_CYCLE"
    by (simp add: cell_def VELOCITY_CYCLE_def)
  have v: "cell (cycleVelocity (\<lambda>_. [0, 100, 0]) snare 1) snare 1 = Some 0"
    by (simp add: cycleVelocity_def cell_def VELOCITY_CYCLE_def)
  note t = cycleVelocity_twice_and_frame [of "\<lambda>_. [0, 100, 0]" snare 1]
  have f: "cell (cycleVelocity (\<lambda>_. [0, 100, 0]) snare 1) inst' j = cell (\<lambda>_. [0, 100, 0]) inst' j"
    if "\<not> (inst' = snare \<and> j = 1)" for inst' j
    using t that by blast
  from t c have "cycleVelocity (cycleVelocity (\<lambda>_. [0, 100, 0]) snare 1) snare 1 = (\<lambda>_. [0, 100, 0])"
    by blast
  moreover have "cell (cycleVelocity (\<lambda>_. [0, 100, 0]) snare 1) kick 1 = cell (\<lambda>_. [0, 100, 0]) kick 1"
    by (rule f) simp
  moreover have "cell (cycleVelocity (\<lambda>_. [0, 100, 0]) snare 1) snare 2 = cell (\<lambda>_. [0, 100, 0]) snare 2"
    by (rule f) simp
  moreover from t have "length (cycleVelocity (\<lambda>_. [0, 100, 0]) snare 1 snare) = length ((\<lambda>_. [0, 100, 0::int]) snare)"
    by blast
  ultimately show ?thesis using c v by (simp add: cell_def)
qed

section \<open>Properties of the transcription\<close>

lemma mergeNotesAt_Some:
  assumes "mergeNotesAt g res stepsPerBar ts b s ks = Some r"
  shows "(res = 8 \<and> snd r = 2 \<and> s + 1 < stepsPerBar \<and> duration (fst r) = ''q'') \<or>
         (res = 16 \<and> snd r = 4 \<and> s + 3 < stepsPerBar \<and> duration (fst r) = ''q'') \<or>
         (res = 16 \<and> snd r = 2 \<and> s + 1 < stepsPerBar \<and> duration (fst r) = ''8'')"
  using assms unfolding mergeNotesAt_def Let_def
  by (auto simp: noteEvent_def split: if_splits)

lemma mergeRestsAt_Some:
  assumes "mergeRestsAt g res stepsPerBar ts b s = Some r"
  shows "(res = 8 \<and> snd r = 2 \<and> s + 1 < stepsPerBar \<and> duration (fst r) = ''qr'') \<or>
         (res = 16 \<and> snd r = 4 \<and> s + 3 < stepsPerBar \<and> duration (fst r) = ''qr'') \<or>
         (res = 16 \<and> snd r = 2 \<and> s + 1 < stepsPerBar \<and> duration (fst r) = ''8r'')"
  using assms unfolding mergeRestsAt_def Let_def
  by (auto simp: restEvent_def split: if_splits)

lemma stepAt_shape:
  fixes g res stepsPerBar ts mergeRests mergeNotes b s
  defines "r \<equiv> stepAt g res stepsPerBar ts mergeRests mergeNotes b s"
  shows "(snd r = 1 \<and> duration (fst r) \<in> {nativeDur res, nativeDur res @ ''r''}) \<or>
         (res = 8 \<and> snd r = 2 \<and> s + 1 < stepsPerBar \<and> duration (fst r) \<in> {''q'', ''qr''}) \<or>
         (res = 16 \<and> snd r = 4 \<and> s + 3 < stepsPerBar \<and> duration (fst r) \<in> {''q'', ''qr''}) \<or>
         (res = 16 \<and> snd r = 2 \<and> s + 1 < stepsPerBar \<and> duration (fst r) \<in> {''8'', ''8r''})"
proof -
  let ?ks = "keysAt g (b * stepsPerBar + s)"
  let ?n = "if mergeNotes \<and> \<not> length ?ks = 0
            then mergeNotesAt g res stepsPerBar ts b s ?ks else None"
  let ?r = "if mergeRests \<and> length ?ks = 0
            then mergeRestsAt g res stepsPerBar ts b s else None"
  show ?thesis
  proof (cases ?n)
    case (Some x)
    then have "mergeNotesAt g res stepsPerBar ts b s ?ks = Some x"
      by (simp split: if_splits)
    from mergeNotesAt_Some [OF this] have
      "(res = 8 \<and> snd x = 2 \<and> s + 1 < stepsPerBar \<and> duration (fst x) = ''q'') \<or>
       (res = 16 \<and> snd x = 4 \<and> s + 3 < stepsPerBar \<and> duration (fst x) = ''q'') \<or>
       (res = 16 \<and> snd x = 2 \<and> s + 1 < stepsPerBar \<and> duration (fst x) = ''8'')" .
    moreover have "r = x" using Some by (simp add: r_def stepAt_def Let_def del: length_0_conv)
    ultimately show ?thesis by blast
  next
    case n: None
    show ?thesis
    proof (cases ?r)
      case (Some x)
      then have "mergeRestsAt g res stepsPerBar ts b s = Some x"
        by (simp split: if_splits)
      from mergeRestsAt_Some [OF this] have
        "(res = 8 \<and> snd x = 2 \<and> s + 1 < stepsPerBar \<and> duration (fst x) = ''qr'') \<or>
         (res = 16 \<and> snd x = 4 \<and> s + 3 < stepsPerBar \<and> duration (fst x) = ''qr'') \<or>
         (res = 16 \<and> snd x = 2 \<and> s + 1 < stepsPerBar \<and> duration (fst x) = ''8r'')" .
      moreover have "r = x" using n Some by (simp add: r_def stepAt_def Let_def del: length_0_conv)
      ultimately show ?thesis by blast
    next
      case None
      with n have "r = (if length ?ks = 0 then (restEvent (nativeDur res @ ''r''), 1)
                        else (noteEvent ?ks (nativeDur res), 1))"
        by (simp add: r_def stepAt_def Let_def del: length_0_conv)
      then show ?thesis by (simp add: restEvent_def noteEvent_def del: length_0_conv)
    qed
  qed
qed

lemma stepAt_within_bar:
  assumes "s < stepsPerBar"
  shows "s + snd (stepAt g res stepsPerBar ts mergeRests mergeNotes b s) \<le> stepsPerBar"
  using stepAt_shape [of g res stepsPerBar ts mergeRests mergeNotes b s] assms by auto

lemma stepAt_duration:
  assumes "res \<in> {4, 8, 16}"
  shows "durationValue (duration (fst (stepAt g res stepsPerBar ts mergeRests mergeNotes b s))) =
         of_nat (snd (stepAt g res stepsPerBar ts mergeRests mergeNotes b s)) / of_nat res"
proof -
  let ?r = "stepAt g res stepsPerBar ts mergeRests mergeNotes b s"
  from stepAt_shape [of g res stepsPerBar ts mergeRests mergeNotes b s]
  consider
    (one) "snd ?r = 1" "duration (fst ?r) \<in> {nativeDur res, nativeDur res @ ''r''}" |
    (q8) "res = 8" "snd ?r = 2" "duration (fst ?r) \<in> {''q'', ''qr''}" |
    (q16) "res = 16" "snd ?r = 4" "duration (fst ?r) \<in> {''q'', ''qr''}" |
    (e16) "res = 16" "snd ?r = 2" "duration (fst ?r) \<in> {''8'', ''8r''}"
    by blast
  then show ?thesis
  proof cases
    case one
    with assms show ?thesis by (auto simp: durationValue_def nativeDur_def)
  next
    case q8
    then show ?thesis by (auto simp: durationValue_def)
  next
    case q16
    then show ?thesis by (auto simp: durationValue_def)
  next
    case e16
    then show ?thesis by (auto simp: durationValue_def)
  qed
qed

lemma transcribeFrom_duration:
  assumes "res \<in> {4, 8, 16}" "s \<le> stepsPerBar"
  shows "barDuration (transcribeFrom g res stepsPerBar ts mergeRests mergeNotes b s) =
         of_nat (stepsPerBar - s) / of_nat res"
  using assms
proof (induction g res stepsPerBar ts mergeRests mergeNotes b s rule: transcribeFrom.induct)
  case (1 g res stepsPerBar ts mergeRests mergeNotes b s)
  let ?r = "stepAt g res stepsPerBar ts mergeRests mergeNotes b s"
  show ?case
  proof (cases "s < stepsPerBar")
    case False
    with "1.prems" show ?thesis
      by (subst transcribeFrom.simps) (simp add: barDuration_def)
  next
    case True
    have le: "s + snd ?r \<le> stepsPerBar" using True by (rule stepAt_within_bar)
    have ih: "barDuration (transcribeFrom g res stepsPerBar ts mergeRests mergeNotes b (s + snd ?r)) =
              of_nat (stepsPerBar - (s + snd ?r)) / of_nat res"
      using "1.IH" [OF True "1.prems"(1) le] .
    have "barDuration (transcribeFrom g res stepsPerBar ts mergeRests mergeNotes b s) =
          durationValue (duration (fst ?r)) +
          barDuration (transcribeFrom g res stepsPerBar ts mergeRests mergeNotes b (s + snd ?r))"
      using True by (subst transcribeFrom.simps) (simp add: barDuration_def)
    also have "\<dots> = of_nat (snd ?r) / of_nat res +
                     of_nat (stepsPerBar - (s + snd ?r)) / of_nat res"
      using stepAt_duration [OF "1.prems"(1)] ih by simp
    also have "\<dots> = of_nat (snd ?r + (stepsPerBar - (s + snd ?r))) / of_nat res"
      by (simp add: add_divide_distrib)
    also have "snd ?r + (stepsPerBar - (s + snd ?r)) = stepsPerBar - s"
      using le by simp
    finally show ?thesis .
  qed
qed

lemma js_round_div_exact:
  assumes "0 < d" "d dvd a"
  shows "js_round_div a d = a div d"
proof -
  from assms(2) obtain q where a: "a = q * d" by (metis dvd_def mult.commute)
  have "(2 * (q * d) + d) = d + q * (2 * d)" by simp
  moreover have "(d + q * (2 * d)) div (2 * d) = q" using assms(1) by simp
  ultimately have "(2 * (q * d) + d) div (2 * d) = q" by (simp only:)
  then show ?thesis using assms(1) a by (simp add: js_round_div_def)
qed

lemma computeStepsPerBar_exact:
  assumes "0 < sig_n ts" "0 < sig_d ts" "0 < res" "sig_d ts dvd sig_n ts * res"
  shows "computeStepsPerBar ts res * sig_d ts = sig_n ts * res"
proof -
  have "js_round_div (sig_n ts * res) (sig_d ts) = sig_n ts * res div sig_d ts"
    using assms by (intro js_round_div_exact)
  moreover have "sig_n ts * res div sig_d ts * sig_d ts = sig_n ts * res"
    using assms(4) by simp
  moreover have "0 < sig_n ts * res div sig_d ts"
  proof -
    have "0 < sig_n ts * res" using assms by simp
    with assms(4) have "sig_d ts \<le> sig_n ts * res" by (rule dvd_imp_le)
    with assms(2) show ?thesis by (simp add: div_greater_zero_iff)
  qed
  ultimately show ?thesis by (simp add: computeStepsPerBar_def max_def)
qed

text \<open>
  Claim C1, as the code has it. For every grid, every resolution in \<open>{4, 8, 16}\<close>, every
  time signature with positive numerator and denominator and every bar \<open>b < bars\<close>,
  the durations of the events emitted for the bar (quarter = 1/4, eighth = 1/8,
  sixteenth = 1/16) sum to \<open>stepsPerBar / resolution\<close> whole notes, with
  \<open>stepsPerBar = max(1, round(numerator \<times> resolution / denominator))\<close>. This is
  \<open>numerator / denominator\<close> whenever the denominator divides
  \<open>numerator \<times> resolution\<close>, which holds for 4/4, 3/4 and 6/8 at every resolution.
\<close>

theorem transcribe_bar_duration:
  assumes "res \<in> {4, 8, 16}" "0 < sig_n ts" "0 < sig_d ts" "b < bars"
  shows "barDuration (transcribe g res bars (computeStepsPerBar ts res) ts
                        mergeRests mergeNotes ! b) =
           of_nat (computeStepsPerBar ts res) / of_nat res
         \<and> (sig_d ts dvd sig_n ts * res \<longrightarrow>
            barDuration (transcribe g res bars (computeStepsPerBar ts res) ts
                           mergeRests mergeNotes ! b) =
              of_nat (sig_n ts) / of_nat (sig_d ts))"
proof -
  let ?spb = "computeStepsPerBar ts res"
  have 1: "barDuration (transcribe g res bars ?spb ts mergeRests mergeNotes ! b) =
           of_nat ?spb / of_nat res"
    using assms(1,4) transcribeFrom_duration [of res 0 ?spb g ts mergeRests mergeNotes b]
    by (simp add: transcribe_def transcribeBar_def)
  have 2: "(of_nat ?spb :: rat) / of_nat res = of_nat (sig_n ts) / of_nat (sig_d ts)"
    if "sig_d ts dvd sig_n ts * res"
  proof -
    have r: "0 < res" using assms(1) by auto
    have "?spb * sig_d ts = sig_n ts * res"
      using assms(2,3) r that by (rule computeStepsPerBar_exact)
    then have "(of_nat ?spb :: rat) * of_nat (sig_d ts) = of_nat (sig_n ts) * of_nat res"
      by (metis of_nat_mult)
    then show ?thesis using r assms(3) by (simp add: field_simps)
  qed
  from 1 2 show ?thesis by simp
qed

text \<open>
  The bar \<open>b = 0\<close> of an empty one-bar grid in 3/8 at resolution 4:
  \<open>stepsPerBar = round(1.5) = 2\<close>, so the bar holds two quarter rests, half a whole note,
  not 3/8.
\<close>

theorem transcribe_bar_duration_counterexample:
  "computeStepsPerBar \<lparr>sig_n = 3, sig_d = 8\<rparr> 4 = 2 \<and>
   map duration (transcribe (\<lambda>_. [0, 0]) 4 1 (computeStepsPerBar \<lparr>sig_n = 3, sig_d = 8\<rparr> 4)
                   \<lparr>sig_n = 3, sig_d = 8\<rparr> True True ! 0) = [''qr'', ''qr''] \<and>
   barDuration (transcribe (\<lambda>_. [0, 0]) 4 1 (computeStepsPerBar \<lparr>sig_n = 3, sig_d = 8\<rparr> 4)
                  \<lparr>sig_n = 3, sig_d = 8\<rparr> True True ! 0) = 1 / 2 \<and>
   barDuration (transcribe (\<lambda>_. [0, 0]) 4 1 (computeStepsPerBar \<lparr>sig_n = 3, sig_d = 8\<rparr> 4)
                  \<lparr>sig_n = 3, sig_d = 8\<rparr> True True ! 0) \<noteq> of_nat 3 / of_nat 8"
  by code_simp

theorem transcribe_bar_duration_witness:
  "(8::nat) \<in> {4, 8, 16} \<and> computeStepsPerBar \<lparr>sig_n = 4, sig_d = 4\<rparr> 8 = 8 \<and>
   barDuration (transcribe (\<lambda>_. [100, 0, 0, 0, 0, 0, 100, 100]) 8 1
                  (computeStepsPerBar \<lparr>sig_n = 4, sig_d = 4\<rparr> 8) \<lparr>sig_n = 4, sig_d = 4\<rparr> True True ! 0) = 1"
  using transcribe_bar_duration [of 8 "\<lparr>sig_n = 4, sig_d = 4\<rparr>" 0 1 "\<lambda>_. [100, 0, 0, 0, 0, 0, 100, 100]" True True]
  by (simp add: computeStepsPerBar_def js_round_div_def)

lemma keysAt_cong:
  assumes "\<forall>inst. cell g1 inst i = cell g2 inst i"
  shows "keysAt g1 i = keysAt g2 i"
  using assms by (simp add: keysAt_def)

lemma isStepEmpty_cong:
  assumes "\<forall>inst. cell g1 inst i = cell g2 inst i"
  shows "isStepEmpty g1 i = isStepEmpty g2 i"
  using assms by (simp add: isStepEmpty_def hasAnyHitAt_def)

lemma merge_cong:
  assumes "\<And>k. s + k < stepsPerBar \<Longrightarrow>
             isStepEmpty g1 (b * stepsPerBar + (s + k)) = isStepEmpty g2 (b * stepsPerBar + (s + k))"
  shows "mergeNotesAt g1 res stepsPerBar ts b s ks = mergeNotesAt g2 res stepsPerBar ts b s ks"
    and "mergeRestsAt g1 res stepsPerBar ts b s = mergeRestsAt g2 res stepsPerBar ts b s"
proof -
  have e1: "(s + 1 < stepsPerBar \<and> isStepEmpty g1 (b * stepsPerBar + (s + 1))) =
            (s + 1 < stepsPerBar \<and> isStepEmpty g2 (b * stepsPerBar + (s + 1)))"
    using assms [of 1] by blast
  have e3: "(s + 3 < stepsPerBar \<and> isStepEmpty g1 (b * stepsPerBar + (s + 1)) \<and>
               isStepEmpty g1 (b * stepsPerBar + (s + 2)) \<and>
               isStepEmpty g1 (b * stepsPerBar + (s + 3))) =
            (s + 3 < stepsPerBar \<and> isStepEmpty g2 (b * stepsPerBar + (s + 1)) \<and>
               isStepEmpty g2 (b * stepsPerBar + (s + 2)) \<and>
               isStepEmpty g2 (b * stepsPerBar + (s + 3)))"
  proof (cases "s + 3 < stepsPerBar")
    case True
    then have "s + 1 < stepsPerBar" "s + 2 < stepsPerBar" by simp_all
    with True assms [of 1] assms [of 2] assms [of 3] show ?thesis by blast
  next
    case False
    then show ?thesis by blast
  qed
  show "mergeNotesAt g1 res stepsPerBar ts b s ks = mergeNotesAt g2 res stepsPerBar ts b s ks"
    unfolding mergeNotesAt_def Let_def e1 e3 ..
  show "mergeRestsAt g1 res stepsPerBar ts b s = mergeRestsAt g2 res stepsPerBar ts b s"
    unfolding mergeRestsAt_def Let_def e1 e3 ..
qed

lemma stepAt_cong:
  assumes "\<forall>inst. \<forall>k < stepsPerBar. cell g1 inst (b * stepsPerBar + k) = cell g2 inst (b * stepsPerBar + k)"
    and "s < stepsPerBar"
  shows "stepAt g1 res stepsPerBar ts mergeRests mergeNotes b s =
         stepAt g2 res stepsPerBar ts mergeRests mergeNotes b s"
proof -
  have k: "keysAt g1 (b * stepsPerBar + s) = keysAt g2 (b * stepsPerBar + s)"
    using assms by (intro keysAt_cong) simp
  have e: "isStepEmpty g1 (b * stepsPerBar + (s + k)) = isStepEmpty g2 (b * stepsPerBar + (s + k))"
    if "s + k < stepsPerBar" for k
    using assms(1) that by (intro isStepEmpty_cong) simp
  have m: "mergeNotesAt g1 res stepsPerBar ts b s ks =
           mergeNotesAt g2 res stepsPerBar ts b s ks" for ks
    using e by (rule merge_cong(1))
  have r: "mergeRestsAt g1 res stepsPerBar ts b s =
           mergeRestsAt g2 res stepsPerBar ts b s"
    using e by (rule merge_cong(2))
  show ?thesis
    unfolding stepAt_def k m r ..
qed

lemma transcribeFrom_cong:
  assumes "\<forall>inst. \<forall>k < stepsPerBar. cell g1 inst (b * stepsPerBar + k) = cell g2 inst (b * stepsPerBar + k)"
  shows "transcribeFrom g1 res stepsPerBar ts mergeRests mergeNotes b s =
         transcribeFrom g2 res stepsPerBar ts mergeRests mergeNotes b s"
  using assms
proof (induction g1 res stepsPerBar ts mergeRests mergeNotes b s rule: transcribeFrom.induct)
  case (1 g1 res stepsPerBar ts mergeRests mergeNotes b s)
  show ?case
  proof (cases "s < stepsPerBar")
    case False
    then show ?thesis
      by (simp add: transcribeFrom.simps [of g1] transcribeFrom.simps [of g2])
  next
    case True
    have st: "stepAt g1 res stepsPerBar ts mergeRests mergeNotes b s =
              stepAt g2 res stepsPerBar ts mergeRests mergeNotes b s"
      using "1.prems" True by (rule stepAt_cong)
    have "transcribeFrom g1 res stepsPerBar ts mergeRests mergeNotes b
            (s + snd (stepAt g1 res stepsPerBar ts mergeRests mergeNotes b s)) =
          transcribeFrom g2 res stepsPerBar ts mergeRests mergeNotes b
            (s + snd (stepAt g1 res stepsPerBar ts mergeRests mergeNotes b s))"
      using "1.IH" [OF True "1.prems"] .
    with st True show ?thesis
      by (simp add: transcribeFrom.simps [of g1 _ _ _ _ _ _ s] transcribeFrom.simps [of g2 _ _ _ _ _ _ s])
  qed
qed

text \<open>
  Claim C5. The events transcribed for bar \<open>b\<close> depend on the steps of bar \<open>b\<close> only: two
  grids that read the same at every step of the bar (global indices
  \<open>b \<times> stepsPerBar \<dots> (b + 1) \<times> stepsPerBar - 1\<close>, a read past the end of a row
  included), and differ in any way elsewhere, give the same event list for the bar under
  the same resolution, time signature and merge flags.
\<close>

theorem transcribeBar_depends_on_own_bar:
  assumes "\<forall>inst. \<forall>k < stepsPerBar. cell g1 inst (b * stepsPerBar + k) = cell g2 inst (b * stepsPerBar + k)"
  shows "transcribeBar g1 res stepsPerBar ts mergeRests mergeNotes b =
         transcribeBar g2 res stepsPerBar ts mergeRests mergeNotes b
       \<and> (b < bars \<longrightarrow>
            transcribe g1 res bars stepsPerBar ts mergeRests mergeNotes ! b =
            transcribe g2 res bars stepsPerBar ts mergeRests mergeNotes ! b)"
  using transcribeFrom_cong [OF assms, of res ts mergeRests mergeNotes 0]
  by (simp add: transcribeBar_def transcribe_def)

theorem transcribeBar_depends_on_own_bar_witness:
  "transcribeBar (\<lambda>inst. if inst = snare then [100, 0, 0, 100] else [0, 0, 0, 0]) 8 2
      \<lparr>sig_n = 1, sig_d = 4\<rparr> True True 0 =
   transcribeBar (\<lambda>inst. if inst = snare then [100, 0, 100, 0] else [0, 0, 100, 100, 100]) 8 2
      \<lparr>sig_n = 1, sig_d = 4\<rparr> True True 0 \<and>
   map duration (transcribeBar (\<lambda>inst. if inst = snare then [100, 0, 0, 100] else [0, 0, 0, 0]) 8 2
      \<lparr>sig_n = 1, sig_d = 4\<rparr> True True 0) = [''q'']"
proof -
  have agree: "\<forall>inst. \<forall>k < 2.
      cell (\<lambda>inst. if inst = snare then [100, 0, 0, 100] else [0, 0, 0, 0]) inst (0 * 2 + k) =
      cell (\<lambda>inst. if inst = snare then [100, 0, 100, 0] else [0, 0, 100, 100, 100]) inst (0 * 2 + k)"
    by (auto simp: cell_def less_Suc_eq numeral_2_eq_2)
  have ev: "map duration (transcribeBar (\<lambda>inst. if inst = snare then [100, 0, 0, 100] else [0, 0, 0, 0]) 8 2
      \<lparr>sig_n = 1, sig_d = 4\<rparr> True True 0) = [''q'']"
    by code_simp
  from transcribeBar_depends_on_own_bar [OF agree, of 8 "\<lparr>sig_n = 1, sig_d = 4\<rparr>" True True 1] ev
  show ?thesis by simp
qed

subsection \<open>The merge-note rules\<close>

lemma hasAnyHitAt_keys: "hasAnyHitAt g i \<longleftrightarrow> keysAt g i \<noteq> []"
  by (auto simp: hasAnyHitAt_def keysAt_def list_ex_iff filter_empty_conv)

lemma stepsPerBeatOf_pos: "0 < stepsPerBeatOf res ts"
  by (simp add: stepsPerBeatOf_def)

lemma subInBeatOf_mod: "subInBeatOf res ts s = s mod stepsPerBeatOf res ts"
  using stepsPerBeatOf_pos [of res ts] by (simp add: subInBeatOf_def Let_def)

lemma firstMatch_map:
  "map_option f (firstMatch rules) = firstMatch (map (\<lambda>(p, a). (p, f a)) rules)"
  by (induction rules rule: firstMatch.induct) simp_all

lemma chain_as_firstMatch:
  assumes "\<not> (p3 \<and> (p1 \<or> p2 \<or> p4))"
  shows "(if p3 then Some a3 else if p1 then Some a1 else if p2 then Some a2
          else if p4 then Some a4 else None) =
         firstMatch [(p1, a1), (p2, a2), (p3, a3), (p4, a4)]"
  using assms by auto

lemma mergeNotesAt_rules:
  "mergeNotesAt g res stepsPerBar ts b s ks =
     map_option (\<lambda>(dur, advance). (noteEvent ks dur, advance))
       (firstMatch (mergeNoteRules
          (\<lambda>k. s + k < stepsPerBar \<and> isStepEmpty g (b * stepsPerBar + s + k))
          res (stepsPerBeatOf res ts) (s mod stepsPerBeatOf res ts)))"
proof -
  let ?B = "stepsPerBeatOf res ts"
  let ?sub = "s mod ?B"
  let ?E = "\<lambda>k. s + k < stepsPerBar \<and> isStepEmpty g (b * stepsPerBar + s + k)"
  define p1 where "p1 \<longleftrightarrow> res = 16 \<and> ?B = 4 \<and> ?sub = 0 \<and> ?E 1 \<and> ?E 2 \<and> ?E 3"
  define p2 where "p2 \<longleftrightarrow> res = 16 \<and> ?B = 4 \<and> (?sub = 0 \<or> ?sub = 2) \<and> ?E 1"
  define p3 where "p3 \<longleftrightarrow> res = 8 \<and> ?B = 2 \<and> ?sub = 0 \<and> ?E 1"
  define p4 where "p4 \<longleftrightarrow> res = 16 \<and> ?B = 2 \<and> ?sub = 0 \<and> ?E 1"
  have c1: "(res = 16 \<and> ?B = 4 \<and> ?sub = 0 \<and> s + 3 < stepsPerBar \<and>
             isStepEmpty g (b * stepsPerBar + (s + 1)) \<and>
             isStepEmpty g (b * stepsPerBar + (s + 2)) \<and>
             isStepEmpty g (b * stepsPerBar + (s + 3))) = p1"
    unfolding p1_def by (auto simp: add.assoc)
  have c2: "(res = 16 \<and> ?B = 4 \<and> (?sub = 0 \<or> ?sub = 2) \<and> s + 1 < stepsPerBar \<and>
             isStepEmpty g (b * stepsPerBar + (s + 1))) = p2"
    unfolding p2_def by (simp add: add.assoc)
  have c3: "(res = 8 \<and> ?B = 2 \<and> ?sub = 0 \<and> s + 1 < stepsPerBar \<and>
             isStepEmpty g (b * stepsPerBar + (s + 1))) = p3"
    unfolding p3_def by (simp add: add.assoc)
  have c4: "(res = 16 \<and> ?B = 2 \<and> ?sub = 0 \<and> s + 1 < stepsPerBar \<and>
             isStepEmpty g (b * stepsPerBar + (s + 1))) = p4"
    unfolding p4_def by (simp add: add.assoc)
  have disj: "\<not> (p3 \<and> (p1 \<or> p2 \<or> p4))"
    unfolding p1_def p2_def p3_def p4_def by auto
  have "mergeNotesAt g res stepsPerBar ts b s ks =
        (if p3 then Some (noteEvent ks ''q'', 2) else if p1 then Some (noteEvent ks ''q'', 4)
         else if p2 then Some (noteEvent ks ''8'', 2) else if p4 then Some (noteEvent ks ''8'', 2)
         else None)"
    unfolding mergeNotesAt_def Let_def subInBeatOf_mod c1 c2 c3 c4 ..
  also have "\<dots> = firstMatch [(p1, (noteEvent ks ''q'', 4)), (p2, (noteEvent ks ''8'', 2)),
                               (p3, (noteEvent ks ''q'', 2)), (p4, (noteEvent ks ''8'', 2))]"
    using disj by (rule chain_as_firstMatch)
  also have "\<dots> = map_option (\<lambda>(dur, advance). (noteEvent ks dur, advance))
                     (firstMatch (mergeNoteRules ?E res ?B ?sub))"
    unfolding firstMatch_map mergeNoteRules_def p1_def p2_def p3_def p4_def by simp
  finally show ?thesis .
qed

lemma stepAt_note:
  assumes "hasAnyHitAt g (b * stepsPerBar + s)"
  shows "stepAt g res stepsPerBar ts mergeRests True b s =
         barNoteStep g res stepsPerBar ts b s"
proof -
  let ?ks = "keysAt g (b * stepsPerBar + s)"
  have ks: "(length ?ks = 0) = False" using assms by (simp add: hasAnyHitAt_keys)
  have "stepAt g res stepsPerBar ts mergeRests True b s =
        (case mergeNotesAt g res stepsPerBar ts b s ?ks of
           Some r \<Rightarrow> r | None \<Rightarrow> (noteEvent ?ks (nativeDur res), 1))"
    unfolding stepAt_def Let_def ks
    by (cases "mergeNotesAt g res stepsPerBar ts b s ?ks") simp_all
  also have "\<dots> = barNoteStep g res stepsPerBar ts b s"
    unfolding mergeNotesAt_rules barNoteStep_def noteStepWith_def Let_def stepsPerBeatOf_def
    by (simp split: option.split)
  finally show ?thesis .
qed

lemma example_merge_on:
  assumes "hasAnyHitAt g (b * 8)" "isStepEmpty g (b * 8 + 1)"
  shows "stepAt g 8 8 \<lparr>sig_n = 4, sig_d = 4\<rparr> mergeRests True b 0 =
         (noteEvent (keysAt g (b * 8)) ''q'', 2)"
proof -
  have "hasAnyHitAt g (b * 8 + 0)" using assms(1) by simp
  from stepAt_note [OF this] show ?thesis
    using assms(2)
    by (simp add: barNoteStep_def noteStepWith_def mergeNoteRules_def js_round_div_def Let_def)
qed

lemma example_merge_off_0:
  assumes "hasAnyHitAt g (b * 8)"
  shows "stepAt g 8 8 \<lparr>sig_n = 4, sig_d = 4\<rparr> mergeRests False b 0 =
         (noteEvent (keysAt g (b * 8)) ''8'', 1)"
proof -
  have ks: "(length (keysAt g (b * 8)) = 0) = False" using assms by (simp add: hasAnyHitAt_keys)
  show ?thesis
    unfolding stepAt_def Let_def by (simp add: ks nativeDur_def del: length_0_conv)
qed

lemma example_merge_off_1:
  assumes "isStepEmpty g (b * 8 + 1)"
  shows "stepAt g 8 8 \<lparr>sig_n = 4, sig_d = 4\<rparr> mergeRests False b 1 = (restEvent ''8r'', 1)"
proof -
  have ks: "keysAt g (b * 8 + 1) = []"
    using assms by (simp add: isStepEmpty_def hasAnyHitAt_keys)
  have sub: "subInBeatOf 8 \<lparr>sig_n = 4, sig_d = 4\<rparr> 1 = 1"
    by (simp add: subInBeatOf_def stepsPerBeatOf_def js_round_div_def)
  have none: "mergeRestsAt g 8 8 \<lparr>sig_n = 4, sig_d = 4\<rparr> b 1 = None"
    unfolding mergeRestsAt_def Let_def sub by simp
  show ?thesis
    unfolding stepAt_def Let_def ks none by (simp add: nativeDur_def)
qed

lemma transcribeFrom_step:
  assumes "s < stepsPerBar"
    and "stepAt g res stepsPerBar ts mergeRests mergeNotes b s = (ev, adv)"
  shows "transcribeFrom g res stepsPerBar ts mergeRests mergeNotes b s =
         ev # transcribeFrom g res stepsPerBar ts mergeRests mergeNotes b (s + adv)"
  using assms by (subst transcribeFrom.simps) simp

text \<open>
  Claim C2. With \<open>mergeNotes\<close> on and the cursor on a note (some instrument has a
  non-zero velocity at that step), one pass of the transcription loop is the first
  matching rule of the four merge-note rules in the stated priority order: (1)
  resolution 16, \<open>stepsPerBeat = 4\<close>, \<open>subInBeat = 0\<close>, next 3 steps empty: one quarter
  note, advance 4; (2) resolution 16, \<open>stepsPerBeat = 4\<close>, \<open>subInBeat\<close> 0 or 2, next step
  empty: one eighth note, advance 2; (3) resolution 8, \<open>stepsPerBeat = 2\<close>,
  \<open>subInBeat = 0\<close>, next step empty: one quarter note, advance 2; (4) resolution 16,
  \<open>stepsPerBeat = 2\<close>, \<open>subInBeat = 0\<close>, next step empty: one eighth note, advance 2; and
  with no match one atomic note of the native duration, advancing one step
  (\<open>barNoteStep\<close>). In 4/4 at resolution 8, a hit on the first step of a bar followed by
  an empty step gives one quarter-note event first when \<open>mergeNotes\<close> is on, and an eighth
  note followed by an eighth rest when it is off.
\<close>

theorem merge_note_rules:
  "(hasAnyHitAt g (b * stepsPerBar + s) \<longrightarrow>
      stepAt g res stepsPerBar ts mergeRests True b s =
        barNoteStep g res stepsPerBar ts b s)
   \<and> (hasAnyHitAt g (b * 8) \<and> isStepEmpty g (b * 8 + 1) \<longrightarrow>
        transcribeBar g 8 (computeStepsPerBar \<lparr>sig_n = 4, sig_d = 4\<rparr> 8) \<lparr>sig_n = 4, sig_d = 4\<rparr>
            mergeRests True b =
          noteEvent (keysAt g (b * 8)) ''q'' #
          transcribeFrom g 8 8 \<lparr>sig_n = 4, sig_d = 4\<rparr> mergeRests True b 2 \<and>
        transcribeBar g 8 (computeStepsPerBar \<lparr>sig_n = 4, sig_d = 4\<rparr> 8) \<lparr>sig_n = 4, sig_d = 4\<rparr>
            mergeRests False b =
          noteEvent (keysAt g (b * 8)) ''8'' # restEvent ''8r'' #
          transcribeFrom g 8 8 \<lparr>sig_n = 4, sig_d = 4\<rparr> mergeRests False b 2)"
proof (intro conjI impI)
  assume "hasAnyHitAt g (b * stepsPerBar + s)"
  then show "stepAt g res stepsPerBar ts mergeRests True b s =
             barNoteStep g res stepsPerBar ts b s"
    by (rule stepAt_note)
next
  let ?ts = "\<lparr>sig_n = 4, sig_d = 4\<rparr>"
  have spb: "computeStepsPerBar ?ts 8 = 8"
    by (simp add: computeStepsPerBar_def js_round_div_def)
  assume a: "hasAnyHitAt g (b * 8) \<and> isStepEmpty g (b * 8 + 1)"
  have "transcribeFrom g 8 8 ?ts mergeRests True b 0 =
        noteEvent (keysAt g (b * 8)) ''q'' # transcribeFrom g 8 8 ?ts mergeRests True b (0 + 2)"
    using a by (intro transcribeFrom_step example_merge_on) simp_all
  then show "transcribeBar g 8 (computeStepsPerBar ?ts 8) ?ts mergeRests True b =
          noteEvent (keysAt g (b * 8)) ''q'' # transcribeFrom g 8 8 ?ts mergeRests True b 2"
    unfolding spb transcribeBar_def by (simp only: add_0)
  have "transcribeFrom g 8 8 ?ts mergeRests False b 0 =
        noteEvent (keysAt g (b * 8)) ''8'' # transcribeFrom g 8 8 ?ts mergeRests False b (0 + 1)"
    using a by (intro transcribeFrom_step example_merge_off_0) simp_all
  moreover have "transcribeFrom g 8 8 ?ts mergeRests False b 1 =
        restEvent ''8r'' # transcribeFrom g 8 8 ?ts mergeRests False b (1 + 1)"
    using a by (intro transcribeFrom_step example_merge_off_1) simp_all
  moreover have "(1::nat) + 1 = 2" by simp
  ultimately show "transcribeBar g 8 (computeStepsPerBar ?ts 8) ?ts mergeRests False b =
          noteEvent (keysAt g (b * 8)) ''8'' # restEvent ''8r'' #
          transcribeFrom g 8 8 ?ts mergeRests False b 2"
    unfolding spb transcribeBar_def by (simp only: add_0)
qed

theorem merge_note_rules_witness:
  "hasAnyHitAt (\<lambda>inst. if inst = kick then [100, 0, 0, 0, 0, 0, 0, 0] else [0, 0, 0, 0, 0, 0, 0, 0]) (0 * 8 + 0) \<and>
   isStepEmpty (\<lambda>inst. if inst = kick then [100, 0, 0, 0, 0, 0, 0, 0] else [0, 0, 0, 0, 0, 0, 0, 0]) (0 * 8 + 1) \<and>
   stepAt (\<lambda>inst. if inst = kick then [100, 0, 0, 0, 0, 0, 0, 0] else [0, 0, 0, 0, 0, 0, 0, 0]) 8 8
     \<lparr>sig_n = 4, sig_d = 4\<rparr> True True 0 0 = (noteEvent [''f/4''] ''q'', 2) \<and>
   map duration (transcribeBar (\<lambda>inst. if inst = kick then [100, 0, 0, 0, 0, 0, 0, 0] else [0, 0, 0, 0, 0, 0, 0, 0]) 8
     (computeStepsPerBar \<lparr>sig_n = 4, sig_d = 4\<rparr> 8) \<lparr>sig_n = 4, sig_d = 4\<rparr> True True 0) =
     [''q'', ''qr'', ''qr'', ''qr''] \<and>
   map duration (transcribeBar (\<lambda>inst. if inst = kick then [100, 0, 0, 0, 0, 0, 0, 0] else [0, 0, 0, 0, 0, 0, 0, 0]) 8
     (computeStepsPerBar \<lparr>sig_n = 4, sig_d = 4\<rparr> 8) \<lparr>sig_n = 4, sig_d = 4\<rparr> True False 0) =
     [''8'', ''8r'', ''qr'', ''qr'', ''qr'']"
proof -
  let ?g = "\<lambda>inst. if inst = kick then [100, 0, 0, 0, 0, 0, 0, 0] else [0, 0, 0, 0, 0, 0, 0, 0 :: int]"
  let ?ts = "\<lparr>sig_n = 4, sig_d = 4\<rparr>"
  have hit: "hasAnyHitAt ?g (0 * 8 + 0)" by code_simp
  have hit': "hasAnyHitAt ?g (0 * 8)" by code_simp
  have empty: "isStepEmpty ?g (0 * 8 + 1)" by code_simp
  have bar: "barNoteStep ?g 8 8 ?ts 0 0 = (noteEvent [''f/4''] ''q'', 2)" by code_simp
  have rest1: "map duration (transcribeFrom ?g 8 8 ?ts True True 0 2) = [''qr'', ''qr'', ''qr'']"
    by code_simp
  have rest2: "map duration (transcribeFrom ?g 8 8 ?ts True False 0 2) = [''qr'', ''qr'', ''qr'']"
    by code_simp
  note t = merge_note_rules [of ?g 0 8 0 8 ?ts True]
  from t hit have 1: "stepAt ?g 8 8 ?ts True True 0 0 = barNoteStep ?g 8 8 ?ts 0 0" by blast
  from t hit' empty have 3:
    "transcribeBar ?g 8 (computeStepsPerBar ?ts 8) ?ts True True 0 =
       noteEvent (keysAt ?g (0 * 8)) ''q'' # transcribeFrom ?g 8 8 ?ts True True 0 2"
    "transcribeBar ?g 8 (computeStepsPerBar ?ts 8) ?ts True False 0 =
       noteEvent (keysAt ?g (0 * 8)) ''8'' # restEvent ''8r'' # transcribeFrom ?g 8 8 ?ts True False 0 2"
    by blast+
  have 4: "map duration (transcribeBar ?g 8 (computeStepsPerBar ?ts 8) ?ts True True 0) =
           [''q'', ''qr'', ''qr'', ''qr'']"
    unfolding 3 by (simp add: rest1 noteEvent_def)
  have 5: "map duration (transcribeBar ?g 8 (computeStepsPerBar ?ts 8) ?ts True False 0) =
           [''8'', ''8r'', ''qr'', ''qr'', ''qr'']"
    unfolding 3 by (simp add: rest2 noteEvent_def restEvent_def)
  from hit empty 1 bar 4 5 show ?thesis by (simp only: simp_thms)
qed

section \<open>Properties of the audio engine\<close>

lemma trigger_eq:
  "trigger instId time velocity e = e\<lparr>started := started e @ sourcesFor e instId time velocity\<rparr>"
  by (simp add: trigger_def sourcesFor_def split: option.split)

lemma sourcesFor_started [simp]:
  "sourcesFor (e\<lparr>started := x\<rparr>) instId time velocity = sourcesFor e instId time velocity"
  by (simp add: sourcesFor_def)

lemma stepSources_started [simp]:
  "stepSources (e\<lparr>started := x\<rparr>) g insts stepIndex time = stepSources e g insts stepIndex time"
  by (simp add: stepSources_def cong: if_cong)

lemma fold_trigger_eq:
  "fold (\<lambda>inst e. let vel = velocityAt g inst stepIndex
                   in if vel > 0 then trigger inst time vel e else e) insts e =
   e\<lparr>started := started e @ stepSources e g insts stepIndex time\<rparr>"
proof (induction insts arbitrary: e)
  case Nil
  then show ?case by (simp add: stepSources_def)
next
  case (Cons inst insts)
  show ?case
    by (simp add: Cons.IH [unfolded Let_def] Let_def trigger_eq)
       (simp add: stepSources_def)
qed

lemma scheduleStep_eq:
  "scheduleStep g insts stepIndex time e =
   e\<lparr>started := started e @ stepSources e g insts stepIndex time,
     stepped := stepped e @ (if onStep e then [stepIndex] else [])\<rparr>"
  unfolding scheduleStep_def fold_trigger_eq by (simp add: Let_def)

lemma loopBody_eq:
  "loopBody snap e =
   e\<lparr>started := started e @ stepSources e (grid snap) (instruments snap) (currentStep e) (nextNoteTime e),
     stepped := stepped e @ (if onStep e then [currentStep e] else []),
     nextNoteTime := nextNoteTime e + secondsPerStep e,
     currentStep := (case columns snap of
                       Some c \<Rightarrow> if currentStep e + 1 \<ge> c then 0 else currentStep e + 1
                     | None \<Rightarrow> currentStep e + 1)\<rparr>"
  unfolding loopBody_def scheduleStep_eq advance_def
  by (simp add: Let_def secondsPerStep_def split: option.split)

lemma schedulerLoop_unfold:
  "schedulerLoop snap now e =
     (if nextNoteTime e < now + scheduleAheadTimeSec then schedulerLoop snap now (loopBody snap e)
      else Some e)"
  unfolding loopBody_def by (rule schedulerLoop.simps)

lemma pollFrame_refl: "pollFrame e e"
  by (simp add: pollFrame_def)

lemma pollFrame_body: 
  assumes "pollFrame (loopBody snap e) e'"
  shows "pollFrame e e'"
proof -
  from assms have "e' = (loopBody snap e)\<lparr>started := started e', stepped := stepped e',
             nextNoteTime := nextNoteTime e', currentStep := currentStep e'\<rparr>"
    by (simp add: pollFrame_def)
  also have "\<dots> = e\<lparr>started := started e', stepped := stepped e',
             nextNoteTime := nextNoteTime e', currentStep := currentStep e'\<rparr>"
    by (simp add: loopBody_eq)
  finally show ?thesis by (simp add: pollFrame_def)
qed

lemma schedulerLoop_frame:
  assumes "schedulerLoop snap now e = Some e'"
  shows "pollFrame e e'"
  using assms
proof (induction rule: schedulerLoop.raw_induct [rotated, consumes 1])
  case (1 f snap now e e')
  show ?case
  proof (cases "nextNoteTime e < now + scheduleAheadTimeSec")
    case True
    with 1(2) have "f snap now (loopBody snap e) = Some e'" by (simp add: loopBody_def)
    from 1(1) [OF this] show ?thesis by (rule pollFrame_body)
  next
    case False
    with 1(2) show ?thesis by (simp add: pollFrame_refl)
  qed
qed

lemma scheduler_frame:
  assumes "scheduler snap now e = Some e'"
  shows "pollFrame e e'"
  using assms schedulerLoop_frame [of snap now e e']
  by (auto simp: scheduler_def pollFrame_refl split: if_splits)

lemma ensureContext_eq:
  "ensureContext e = e\<lparr>audioCtx := True, master := (if audioCtx e then master e else True)\<rparr>"
  by (simp add: ensureContext_def)

lemma pollFrame_fields:
  assumes "pollFrame e e'"
  shows "audioCtx e' = audioCtx e" "master e' = master e" "isPlaying e' = isPlaying e"
    "bpm e' = bpm e" "resolution e' = resolution e" "timerId e' = timerId e"
    "buffers e' = buffers e" "onStep e' = onStep e" "intervals e' = intervals e"
    "nextHandle e' = nextHandle e" "queued e' = queued e" "resuming e' = resuming e"
proof -
  have eq: "e' = e\<lparr>started := started e', stepped := stepped e',
             nextNoteTime := nextNoteTime e', currentStep := currentStep e'\<rparr>"
    using assms by (simp add: pollFrame_def)
  show "audioCtx e' = audioCtx e" by (subst eq) simp
  show "master e' = master e" by (subst eq) simp
  show "isPlaying e' = isPlaying e" by (subst eq) simp
  show "bpm e' = bpm e" by (subst eq) simp
  show "resolution e' = resolution e" by (subst eq) simp
  show "timerId e' = timerId e" by (subst eq) simp
  show "buffers e' = buffers e" by (subst eq) simp
  show "onStep e' = onStep e" by (subst eq) simp
  show "intervals e' = intervals e" by (subst eq) simp
  show "nextHandle e' = nextHandle e" by (subst eq) simp
  show "queued e' = queued e" by (subst eq) simp
  show "resuming e' = resuming e" by (subst eq) simp
qed

subsection \<open>The scheduler loop returns, and its transport does not depend on the buffers\<close>

lemma secondsPerStep_loopBody [simp]: "secondsPerStep (loopBody snap e) = secondsPerStep e"
  by (simp add: loopBody_eq secondsPerStep_def)

lemma nextNoteTime_loopBody [simp]:
  "nextNoteTime (loopBody snap e) = nextNoteTime e + secondsPerStep e"
  by (simp add: loopBody_eq)

lemma sameTransport_fields:
  assumes "sameTransport e f"
  shows "nextNoteTime f = nextNoteTime e" "secondsPerStep f = secondsPerStep e"
    "currentStep f = currentStep e" "onStep f = onStep e" "audioCtx f = audioCtx e"
    "isPlaying f = isPlaying e" "timerId f = timerId e" "intervals f = intervals e"
    "stepped f = stepped e"
proof -
  have eq: "f = e\<lparr>buffers := buffers f, started := started f\<rparr>"
    using assms by (simp add: sameTransport_def)
  show "nextNoteTime f = nextNoteTime e" by (subst eq) simp
  show "secondsPerStep f = secondsPerStep e" by (subst eq) (simp add: secondsPerStep_def)
  show "currentStep f = currentStep e" by (subst eq) simp
  show "onStep f = onStep e" by (subst eq) simp
  show "audioCtx f = audioCtx e" by (subst eq) simp
  show "isPlaying f = isPlaying e" by (subst eq) simp
  show "timerId f = timerId e" by (subst eq) simp
  show "intervals f = intervals e" by (subst eq) simp
  show "stepped f = stepped e" by (subst eq) simp
qed

lemma loopBody_sameTransport:
  assumes "sameTransport e f"
  shows "sameTransport (loopBody snap e) (loopBody snap f)"
proof -
  have eq: "f = e\<lparr>buffers := buffers f, started := started f\<rparr>"
    using assms by (simp add: sameTransport_def)
  have "loopBody snap f = loopBody snap (e\<lparr>buffers := buffers f, started := started f\<rparr>)"
    by (subst eq) simp
  also have "\<dots> = (loopBody snap e)\<lparr>buffers := buffers f,
      started := started (loopBody snap (e\<lparr>buffers := buffers f, started := started f\<rparr>))\<rparr>"
    by (simp add: loopBody_eq secondsPerStep_def split: option.split)
  also have "\<dots> = (loopBody snap e)\<lparr>buffers := buffers (loopBody snap f),
      started := started (loopBody snap f)\<rparr>"
    using eq by (simp add: loopBody_eq)
  finally show ?thesis by (simp add: sameTransport_def)
qed

lemma steps_left_decrease:
  fixes x d :: rat
  assumes "0 < d" "0 < x"
  shows "nat \<lceil>(x - d) / d\<rceil> < nat \<lceil>x / d\<rceil>"
proof -
  have "(x - d) / d = x / d - 1" using assms(1) by (simp add: diff_divide_distrib)
  then have "\<lceil>(x - d) / d\<rceil> = \<lceil>x / d\<rceil> - 1" by simp
  moreover have "0 < \<lceil>x / d\<rceil>" using assms by (simp add: ceiling_less_iff)
  ultimately show ?thesis by simp
qed

lemma schedulerLoop_sameTransport:
  assumes "0 < secondsPerStep e" "sameTransport e f"
  shows "\<exists>e' f'. schedulerLoop snap now e = Some e' \<and> schedulerLoop snap now f = Some f' \<and>
                 sameTransport e' f'"
  using assms
proof (induction "nat \<lceil>(now + scheduleAheadTimeSec - nextNoteTime e) / secondsPerStep e\<rceil>"
    arbitrary: e f rule: less_induct)
  case less
  show ?case
  proof (cases "nextNoteTime e < now + scheduleAheadTimeSec")
    case False
    moreover have "nextNoteTime f = nextNoteTime e"
      using less.prems(2) by (rule sameTransport_fields)
    ultimately show ?thesis
      using less.prems(2) by (simp add: schedulerLoop_unfold)
  next
    case True
    have nf: "nextNoteTime f = nextNoteTime e"
      using less.prems(2) by (rule sameTransport_fields)
    let ?e2 = "loopBody snap e" and ?f2 = "loopBody snap f"
    have "nat \<lceil>(now + scheduleAheadTimeSec - nextNoteTime e - secondsPerStep e) / secondsPerStep e\<rceil>
          < nat \<lceil>(now + scheduleAheadTimeSec - nextNoteTime e) / secondsPerStep e\<rceil>"
      using less.prems(1) True by (intro steps_left_decrease) simp_all
    then have m: "nat \<lceil>(now + scheduleAheadTimeSec - nextNoteTime ?e2) / secondsPerStep ?e2\<rceil>
          < nat \<lceil>(now + scheduleAheadTimeSec - nextNoteTime e) / secondsPerStep e\<rceil>"
      by (simp add: algebra_simps)
    have p: "0 < secondsPerStep ?e2" using less.prems(1) by simp
    have s: "sameTransport ?e2 ?f2" using less.prems(2) by (rule loopBody_sameTransport)
    from less.hyps [OF m p s]
    obtain e' f' where "schedulerLoop snap now ?e2 = Some e'" "schedulerLoop snap now ?f2 = Some f'"
      "sameTransport e' f'" by blast
    moreover have "schedulerLoop snap now e = schedulerLoop snap now ?e2"
      using True by (subst schedulerLoop_unfold) simp
    moreover have "schedulerLoop snap now f = schedulerLoop snap now ?f2"
      using True nf by (subst schedulerLoop_unfold) simp
    ultimately show ?thesis by simp
  qed
qed

lemma sameTransport_refl: "sameTransport e e"
  by (simp add: sameTransport_def)

lemma secondsPerStep_pos:
  assumes "0 < bpm e" "0 < resolution e"
  shows "0 < secondsPerStep e"
  using assms by (simp add: secondsPerStep_def)

lemma scheduler_sameTransport:
  assumes "0 < bpm e" "0 < resolution e"
  shows "\<exists>e1 e2. scheduler snap now e = Some e1 \<and>
                 scheduler snap now (e\<lparr>buffers := bufs\<rparr>) = Some e2 \<and> sameTransport e1 e2"
proof (cases "audioCtx e")
  case False
  then show ?thesis by (simp add: scheduler_def sameTransport_def)
next
  case True
  have "sameTransport e (e\<lparr>buffers := bufs\<rparr>)" by (simp add: sameTransport_def)
  from schedulerLoop_sameTransport [OF secondsPerStep_pos [OF assms] this, of snap now]
  show ?thesis using True by (simp add: scheduler_def)
qed

lemma stepSources_when:
  "\<forall>x \<in> set (stepSources e g insts stepIndex time). src_when x = time"
  by (auto simp: stepSources_def sourcesFor_def split: if_splits option.splits)

lemma schedulerLoop_times:
  assumes "schedulerLoop snap t e = Some e'"
  shows "0 \<le> secondsPerStep e \<longrightarrow>
         (\<exists>rest. started e' = started e @ rest \<and> (\<forall>x \<in> set rest. nextNoteTime e \<le> src_when x))"
  using assms
proof (induction rule: schedulerLoop.raw_induct [rotated, consumes 1])
  case (1 f snap t e e')
  show ?case
  proof (cases "nextNoteTime e < t + scheduleAheadTimeSec")
    case False
    with 1(2) show ?thesis by simp
  next
    case True
    let ?e2 = "loopBody snap e"
    let ?now = "stepSources e (grid snap) (instruments snap) (currentStep e) (nextNoteTime e)"
    from True 1(2) have "f snap t ?e2 = Some e'" by (simp add: loopBody_def)
    from 1(1) [OF this] have ih: "0 \<le> secondsPerStep e \<longrightarrow>
         (\<exists>rest. started e' = started ?e2 @ rest \<and>
                 (\<forall>x \<in> set rest. nextNoteTime e + secondsPerStep e \<le> src_when x))"
      by simp
    show ?thesis
    proof
      assume nonneg: "0 \<le> secondsPerStep e"
      with ih obtain rest where rest: "started e' = started ?e2 @ rest"
        "\<forall>x \<in> set rest. nextNoteTime e + secondsPerStep e \<le> src_when x" by blast
      have "started e' = started e @ (?now @ rest)"
        using rest(1) by (simp add: loopBody_eq)
      moreover have "\<forall>x \<in> set (?now @ rest). nextNoteTime e \<le> src_when x"
        using rest(2) nonneg stepSources_when [of e "grid snap" "instruments snap" "currentStep e" "nextNoteTime e"]
        by auto
      ultimately show "\<exists>rest. started e' = started e @ rest \<and>
                             (\<forall>x \<in> set rest. nextNoteTime e \<le> src_when x)"
        by blast
    qed
  qed
qed

lemma schedulerLoop_returns:
  assumes "0 < secondsPerStep e"
  shows "\<exists>e'. schedulerLoop snap now e = Some e'"
  using schedulerLoop_sameTransport [OF assms sameTransport_refl, of snap now] by blast

subsection \<open>Stopping\<close>

lemma timerInv_initial: "timerInv initial"
  by (simp add: timerInv_def initial_def)

lemma timerInv_frame:
  assumes "pollFrame e e'"
  shows "timerInv e' = timerInv e"
  using pollFrame_fields [OF assms] by (simp add: timerInv_def)

lemma timerInv_invoke:
  assumes "timerInv e"
  shows "timerInv (invoke c e)"
proof (cases c)
  case (CallPlay startStep)
  with assms show ?thesis by (auto simp: timerInv_def playCall_def ensureContext_eq)
next
  case CallStop
  with assms show ?thesis by (auto simp: timerInv_def stop_def Let_def split: option.splits)
next
  case (CallSetBuffers nextBuffers)
  with assms show ?thesis by (auto simp: timerInv_def setBuffers_def)
next
  case (CallSetTransport nextBpm nextResolution)
  with assms show ?thesis
    by (auto simp: timerInv_def setTransport_def Let_def split: option.splits)
next
  case (CallSetOnStep fn)
  with assms show ?thesis by (auto simp: timerInv_def setOnStep_def)
next
  case CallEnsureContext
  with assms show ?thesis by (auto simp: timerInv_def ensureContext_eq)
qed

lemma timerInv_invokes:
  assumes "timerInv e"
  shows "timerInv (fold invoke calls e)"
  using assms by (induction calls arbitrary: e) (simp_all add: timerInv_invoke)

lemma timerInv_scheduleStepWith:
  assumes "timerInv e"
  shows "timerInv (fst (scheduleStepWith cbs g insts stepIndex time e))"
proof -
  have "timerInv (e\<lparr>started := x\<rparr>)" "timerInv (e\<lparr>started := x, stepped := y\<rparr>)" for x y
    using assms by (simp_all add: timerInv_def)
  then show ?thesis
    unfolding scheduleStepWith_def fold_trigger_eq
    by (simp add: Let_def timerInv_invokes)
qed

lemma timerInv_advance:
  assumes "timerInv e"
  shows "timerInv (advance snap e)"
  using assms by (simp add: advance_def Let_def timerInv_def split: option.split)

lemma schedulerLoopWith_timerInv:
  assumes "schedulerLoopWith cbs snap now e = Some e'"
  shows "timerInv e \<longrightarrow> timerInv e'"
  using assms
proof (induction rule: schedulerLoopWith.raw_induct [rotated, consumes 1])
  case (1 f cbs snap now e e')
  show ?case
  proof (cases "nextNoteTime e < now + scheduleAheadTimeSec")
    case False
    with 1(2) show ?thesis by simp
  next
    case True
    let ?r = "scheduleStepWith cbs (grid snap) (instruments snap) (currentStep e) (nextNoteTime e) e"
    from True 1(2) have "f (snd ?r) snap now (advance snap (fst ?r)) = Some e'" by simp
    from 1(1) [OF this] show ?thesis
      by (simp add: timerInv_advance timerInv_scheduleStepWith)
  qed
qed

lemma timerInv_exec:
  assumes "timerInv e" "exec ev e = Some e'"
  shows "timerInv e'"
proof (cases ev)
  case (Call c)
  with assms show ?thesis by (auto simp: timerInv_invoke)
next
  case (PlayResume snap now)
  with assms show ?thesis
    by (auto simp: timerInv_def playResume_def playBody_def Let_def split: list.splits option.splits)
next
  case (TimerDue t)
  with assms show ?thesis by (auto simp: timerInv_def split: if_splits)
next
  case (RunTimerTask cbs snap now)
  show ?thesis
  proof (cases "queued e")
    case Nil
    with assms RunTimerTask show ?thesis by simp
  next
    case (Cons t rest)
    let ?e1 = "e\<lparr>queued := rest\<rparr>"
    have inv1: "timerInv ?e1" using assms(1) by (simp add: timerInv_def)
    show ?thesis
    proof (cases "t \<in> set (intervals e) \<and> audioCtx e")
      case True
      with assms(2) RunTimerTask Cons have "schedulerLoopWith cbs snap now ?e1 = Some e'"
        by (simp add: schedulerWith_def Let_def)
      from schedulerLoopWith_timerInv [OF this] inv1 show ?thesis by simp
    next
      case False
      with assms(2) RunTimerTask Cons inv1 show ?thesis
        by (auto simp: schedulerWith_def Let_def split: if_splits)
    qed
  qed
qed

lemma timerInv_run:
  assumes "timerInv e" "run es e = Some e'"
  shows "timerInv e'"
  using assms
proof (induction es arbitrary: e)
  case Nil
  then show ?case by simp
next
  case (Cons ev es)
  from Cons.prems(2) obtain e1 where e1: "exec ev e = Some e1" "run es e1 = Some e'"
    by (auto split: option.splits)
  from Cons.prems(1) e1(1) have "timerInv e1" by (rule timerInv_exec)
  from Cons.IH [OF this e1(2)] show ?case .
qed

lemma stop_silent:
  assumes "timerInv e"
  shows "silent (stop e)" "sameOutput e (stop e)"
  using assms
  by (auto simp: timerInv_def silent_def sameOutput_def stop_def Let_def split: option.splits)

lemma idle_silent:
  assumes "timerInv e" "\<not> isPlaying e"
  shows "silent e"
  using assms by (auto simp: timerInv_def silent_def)

lemma stop_idle: "\<not> isPlaying e \<Longrightarrow> stop e = e"
  by (simp add: stop_def)

lemma invoke_silent:
  assumes "silent e"
  shows "silent (invoke c e) \<and> sameOutput e (invoke c e)"
proof (cases c)
  case (CallPlay startStep)
  with assms show ?thesis by (auto simp: silent_def sameOutput_def playCall_def ensureContext_eq)
next
  case CallStop
  with assms show ?thesis by (auto simp: silent_def sameOutput_def stop_def)
next
  case (CallSetBuffers nextBuffers)
  with assms show ?thesis by (auto simp: silent_def sameOutput_def setBuffers_def)
next
  case (CallSetTransport nextBpm nextResolution)
  with assms show ?thesis
    by (auto simp: silent_def sameOutput_def setTransport_def Let_def split: option.splits)
next
  case (CallSetOnStep fn)
  with assms show ?thesis by (auto simp: silent_def sameOutput_def setOnStep_def)
next
  case CallEnsureContext
  with assms show ?thesis by (auto simp: silent_def sameOutput_def ensureContext_eq)
qed

lemma exec_silent:
  assumes "silent e" "\<not> isPlayResume ev"
  shows "\<exists>e'. exec ev e = Some e' \<and> silent e' \<and> sameOutput e e'"
proof (cases ev)
  case (Call c)
  with invoke_silent [OF assms(1), of c] show ?thesis by simp
next
  case (PlayResume snap now)
  with assms show ?thesis by simp
next
  case (TimerDue t)
  with assms show ?thesis by (auto simp: silent_def sameOutput_def split: if_splits)
next
  case (RunTimerTask cbs snap now)
  with assms show ?thesis
    by (cases "queued e") (auto simp: silent_def sameOutput_def)
qed

lemma sameOutput_trans: "sameOutput a b \<Longrightarrow> sameOutput b c \<Longrightarrow> sameOutput a c"
  by (simp add: sameOutput_def)

lemma run_silent:
  assumes "silent e" "\<forall>ev \<in> set es. \<not> isPlayResume ev"
  shows "\<exists>e'. run es e = Some e' \<and> silent e' \<and> sameOutput e e'"
  using assms
proof (induction es arbitrary: e)
  case Nil
  then show ?case by (simp add: sameOutput_def)
next
  case (Cons ev es)
  from Cons.prems have "\<not> isPlayResume ev" by simp
  from exec_silent [OF Cons.prems(1) this]
  obtain e1 where e1: "exec ev e = Some e1" "silent e1" "sameOutput e e1" by blast
  from Cons.prems(2) have "\<forall>ev \<in> set es. \<not> isPlayResume ev" by simp
  from Cons.IH [OF e1(2) this]
  obtain e' where e': "run es e1 = Some e'" "silent e'" "sameOutput e1 e'" by blast
  from e1 e' show ?case by (auto intro: sameOutput_trans)
qed

text \<open>The poll with a callback that makes no call is the poll of \<open>scheduler\<close>.\<close>

lemma scheduleStepWith_Nil:
  "scheduleStepWith [] g insts stepIndex time e = (scheduleStep g insts stepIndex time e, [])"
  by (simp add: scheduleStepWith_def scheduleStep_def Let_def)

lemma schedulerLoopWith_Nil_1:
  assumes "schedulerLoopWith cbs snap now e = Some e'"
  shows "cbs = [] \<longrightarrow> schedulerLoop snap now e = Some e'"
  using assms
proof (induction rule: schedulerLoopWith.raw_induct [rotated, consumes 1])
  case (1 f cbs snap now e e')
  show ?case
  proof
    assume nil: "cbs = []"
    show "schedulerLoop snap now e = Some e'"
    proof (cases "nextNoteTime e < now + scheduleAheadTimeSec")
      case False
      with 1(2) show ?thesis by (subst schedulerLoop.simps) simp
    next
      case True
      with 1(2) nil have "f [] snap now (advance snap
          (scheduleStep (grid snap) (instruments snap) (currentStep e) (nextNoteTime e) e)) = Some e'"
        by (simp add: scheduleStepWith_Nil)
      from 1(1) [OF this] True show ?thesis by (subst schedulerLoop.simps) simp
    qed
  qed
qed

lemma schedulerLoopWith_Nil_2:
  assumes "schedulerLoop snap now e = Some e'"
  shows "schedulerLoopWith [] snap now e = Some e'"
  using assms
proof (induction rule: schedulerLoop.raw_induct [rotated, consumes 1])
  case (1 f snap now e e')
  show ?case
  proof (cases "nextNoteTime e < now + scheduleAheadTimeSec")
    case False
    with 1(2) show ?thesis by (subst schedulerLoopWith.simps) simp
  next
    case True
    with 1(2) have "f snap now (advance snap
        (scheduleStep (grid snap) (instruments snap) (currentStep e) (nextNoteTime e) e)) = Some e'"
      by simp
    from 1(1) [OF this] True show ?thesis
      by (subst schedulerLoopWith.simps) (simp add: scheduleStepWith_Nil)
  qed
qed

lemma schedulerWith_Nil: "schedulerWith [] snap now e = scheduler snap now e"
proof -
  have "schedulerLoopWith [] snap now e = schedulerLoop snap now e"
  proof (cases "schedulerLoop snap now e")
    case (Some e')
    then show ?thesis by (simp add: schedulerLoopWith_Nil_2)
  next
    case None
    show ?thesis
    proof (cases "schedulerLoopWith [] snap now e")
      case (Some e')
      from schedulerLoopWith_Nil_1 [OF this] None show ?thesis by simp
    next
      case n: None
      with None show ?thesis by simp
    qed
  qed
  then show ?thesis by (simp add: schedulerWith_def scheduler_def)
qed

text \<open>
  Claim C6, as the code has it. In every state an engine can reach between two events,
  once a \<open>stop()\<close> called there has returned the engine is stopped with no active
  interval, and as long as no \<open>play()\<close> gets past its \<open>await\<close> (no \<open>PlayResume\<close>),
  whatever else happens (timer tasks that were already queued when \<open>stop()\<close> ran, with
  any step callback, further calls of \<open>stop()\<close>, new \<open>play()\<close> calls still waiting,
  changes of buffers and transport) every event returns, nothing is started on the audio
  backend, the step callback is not called and the cursor and \<open>nextNoteTime\<close> stay as
  they were. \<open>stop()\<close> on a stopped engine changes nothing at all, and the same silence
  holds from every stopped state reached between two events, so also from the end of a
  poll whose step callback called \<open>stop()\<close>. What the rest of that poll does after the
  callback has returned is not part of the statement.
\<close>

theorem stop_cancels_polling:
  assumes "run es1 initial = Some e" "\<forall>ev \<in> set es2. \<not> isPlayResume ev"
  shows "(\<exists>e'. run es2 (stop e) = Some e' \<and> \<not> isPlaying e' \<and> intervals e' = [] \<and>
               started e' = started e \<and> stepped e' = stepped e \<and>
               currentStep e' = currentStep e \<and> nextNoteTime e' = nextNoteTime e)
         \<and> (\<not> isPlaying e \<longrightarrow>
              stop e = e \<and> intervals e = [] \<and>
              (\<exists>e'. run es2 e = Some e' \<and> \<not> isPlaying e' \<and> intervals e' = [] \<and>
                    started e' = started e \<and> stepped e' = stepped e \<and>
                    currentStep e' = currentStep e \<and> nextNoteTime e' = nextNoteTime e))"
proof -
  have inv: "timerInv e" using timerInv_initial assms(1) by (rule timerInv_run)
  from run_silent [OF stop_silent(1) [OF inv] assms(2)]
  obtain e' where e': "run es2 (stop e) = Some e'" "silent e'" "sameOutput (stop e) e'" by blast
  from stop_silent(2) [OF inv] e'(3) have "sameOutput e e'" by (rule sameOutput_trans)
  with e' have 1: "\<exists>e'. run es2 (stop e) = Some e' \<and> \<not> isPlaying e' \<and> intervals e' = [] \<and>
               started e' = started e \<and> stepped e' = stepped e \<and>
               currentStep e' = currentStep e \<and> nextNoteTime e' = nextNoteTime e"
    by (auto simp: silent_def sameOutput_def)
  have 2: "stop e = e \<and> intervals e = [] \<and>
              (\<exists>e'. run es2 e = Some e' \<and> \<not> isPlaying e' \<and> intervals e' = [] \<and>
                    started e' = started e \<and> stepped e' = stepped e \<and>
                    currentStep e' = currentStep e \<and> nextNoteTime e' = nextNoteTime e)"
    if idle: "\<not> isPlaying e"
  proof -
    have s: "stop e = e" using idle by (rule stop_idle)
    have "intervals e = []" using idle_silent [OF inv idle] by (simp add: silent_def)
    with 1 s show ?thesis by simp
  qed
  from 1 2 show ?thesis by blast
qed

theorem stop_cancels_polling_witness:
  "(\<exists>e. run [Call (CallSetBuffers (Some [''kick'' \<mapsto> 7])), Call (CallPlay 0),
              PlayResume \<lparr>grid = [''kick'' \<mapsto> [100, 0]], instruments = [''kick'', ''snare''],
                          columns = Some 2\<rparr> 0,
              TimerDue 1] initial = Some e \<and>
         isPlaying e \<and> queued e = [1] \<and> intervals e = [1] \<and> started e = [] \<and>
         (\<exists>e'. run [RunTimerTask [] \<lparr>grid = [''kick'' \<mapsto> [100, 0]], instruments = [''kick'', ''snare''],
                                       columns = Some 2\<rparr> (1 / 100),
                      TimerDue 1, Call (CallPlay 1), Call CallStop,
                      RunTimerTask [] \<lparr>grid = [''kick'' \<mapsto> [100, 0]], instruments = [''kick'', ''snare''],
                                       columns = Some 2\<rparr> (2 / 100)] (stop e) = Some e' \<and>
               \<not> isPlaying e' \<and> started e' = []))
   \<and> (\<exists>e. run [Call (CallSetBuffers (Some [''kick'' \<mapsto> 7])), Call (CallSetOnStep True),
                Call (CallSetTransport (Some 600) None), Call (CallPlay 0),
                PlayResume \<lparr>grid = [''kick'' \<mapsto> [100, 100, 100, 100]], instruments = [''kick''],
                            columns = Some 4\<rparr> 0,
                TimerDue 1,
                RunTimerTask [[CallStop]] \<lparr>grid = [''kick'' \<mapsto> [100, 100, 100, 100]],
                                            instruments = [''kick''], columns = Some 4\<rparr> 0] initial = Some e \<and>
           \<not> isPlaying e \<and> stop e = e \<and> stepped e = [0, 1, 2, 3] \<and>
           (\<exists>e'. run [TimerDue 1,
                        RunTimerTask [] \<lparr>grid = [''kick'' \<mapsto> [100, 100, 100, 100]],
                                         instruments = [''kick''], columns = Some 4\<rparr> (1 / 10),
                        Call (CallPlay 2)] e = Some e' \<and>
                 \<not> isPlaying e' \<and> started e' = started e \<and> stepped e' = [0, 1, 2, 3] \<and>
                 nextNoteTime e' = nextNoteTime e))"
proof -
  let ?snap = "\<lparr>grid = [''kick'' \<mapsto> [100, 0]], instruments = [''kick'', ''snare''],
                columns = Some (2::int)\<rparr>"
  let ?es1 = "[Call (CallSetBuffers (Some [''kick'' \<mapsto> 7])), Call (CallPlay 0), PlayResume ?snap 0,
               TimerDue 1]"
  let ?es2 = "[RunTimerTask [] ?snap (1 / 100), TimerDue 1, Call (CallPlay 1), Call CallStop,
               RunTimerTask [] ?snap (2 / 100)]"
  have "map_option (\<lambda>e. (isPlaying e, queued e, intervals e, started e)) (run ?es1 initial) =
        Some (True, [1], [1], [])"
    by code_simp
  then obtain e where e: "run ?es1 initial = Some e" "isPlaying e" "queued e = [1]"
    "intervals e = [1]" "started e = []"
    by auto
  have quiet: "\<forall>ev \<in> set ?es2. \<not> isPlayResume ev" by simp
  from stop_cancels_polling [OF e(1) quiet]
  obtain e' where e': "run ?es2 (stop e) = Some e'" "\<not> isPlaying e'" "started e' = started e"
    by blast
  from e e' have first: "\<exists>e. run ?es1 initial = Some e \<and>
         isPlaying e \<and> queued e = [1] \<and> intervals e = [1] \<and> started e = [] \<and>
         (\<exists>e'. run ?es2 (stop e) = Some e' \<and> \<not> isPlaying e' \<and> started e' = [])"
    by (intro exI [of _ e] conjI exI [of _ e']) simp_all
  let ?snapD = "\<lparr>grid = [''kick'' \<mapsto> [100, 100, 100, 100]], instruments = [''kick''],
                 columns = Some (4::int)\<rparr>"
  let ?es3 = "[Call (CallSetBuffers (Some [''kick'' \<mapsto> 7])), Call (CallSetOnStep True),
               Call (CallSetTransport (Some 600) None), Call (CallPlay 0), PlayResume ?snapD 0,
               TimerDue 1, RunTimerTask [[CallStop]] ?snapD 0]"
  let ?es4 = "[TimerDue 1, RunTimerTask [] ?snapD (1 / 10), Call (CallPlay 2)]"
  have "map_option (\<lambda>e. (isPlaying e, stepped e)) (run ?es3 initial) = Some (False, [0, 1, 2, 3])"
    by code_simp
  then obtain f where f: "run ?es3 initial = Some f" "\<not> isPlaying f" "stepped f = [0, 1, 2, 3]"
    by auto
  have quiet': "\<forall>ev \<in> set ?es4. \<not> isPlayResume ev" by simp
  from stop_cancels_polling [OF f(1) quiet'] f(2)
  obtain f' where f': "stop f = f" "run ?es4 f = Some f'" "\<not> isPlaying f'"
    "started f' = started f" "stepped f' = stepped f" "nextNoteTime f' = nextNoteTime f"
    by blast
  from f f' have second: "\<exists>e. run ?es3 initial = Some e \<and>
           \<not> isPlaying e \<and> stop e = e \<and> stepped e = [0, 1, 2, 3] \<and>
           (\<exists>e'. run ?es4 e = Some e' \<and>
                 \<not> isPlaying e' \<and> started e' = started e \<and> stepped e' = [0, 1, 2, 3] \<and>
                 nextNoteTime e' = nextNoteTime e)"
    by (intro exI [of _ f] conjI exI [of _ f']) simp_all
  from first second show ?thesis by (rule conjI)
qed

text \<open>
  Two runs. In the first a \<open>play()\<close> is called and waits at its \<open>await\<close>; \<open>stop()\<close> is
  called and returns (the engine is not playing, so it does nothing); no \<open>play()\<close> is
  called after that. The waiting \<open>play()\<close> then resumes, starts the interval, and the
  first poll starts the kick sample. In the second the engine plays four kicks at 600
  bpm with a step callback that calls \<open>stop()\<close> at its first invocation of the first
  poll: when the callback returns the engine is stopped with one source started, and the
  \<open>while\<close> loop of that poll goes on to call the callback three more times and to start
  three more sources.
\<close>

theorem stop_cancels_polling_counterexample:
  "list_ex isPlayCall
     [PlayResume \<lparr>grid = [''kick'' \<mapsto> [100, 0]], instruments = [''kick'', ''snare''],
                  columns = Some 2\<rparr> 0,
      TimerDue 1,
      RunTimerTask [] \<lparr>grid = [''kick'' \<mapsto> [100, 0]], instruments = [''kick'', ''snare''],
                       columns = Some 2\<rparr> 0] = False \<and>
   map_option started
     (run [Call (CallSetBuffers (Some [''kick'' \<mapsto> 7])), Call (CallPlay 0)] initial) = Some [] \<and>
   Option.bind (run [Call (CallSetBuffers (Some [''kick'' \<mapsto> 7])), Call (CallPlay 0)] initial)
     (\<lambda>e. map_option started
        (run [PlayResume \<lparr>grid = [''kick'' \<mapsto> [100, 0]], instruments = [''kick'', ''snare''],
                          columns = Some 2\<rparr> 0,
              TimerDue 1,
              RunTimerTask [] \<lparr>grid = [''kick'' \<mapsto> [100, 0]], instruments = [''kick'', ''snare''],
                               columns = Some 2\<rparr> 0] (stop e))) =
     Some [\<lparr>src_buffer = 7, src_gain = 100 / 127, src_when = 3 / 100\<rparr>] \<and>
   Option.bind
     (run [Call (CallSetBuffers (Some [''kick'' \<mapsto> 7])), Call (CallSetOnStep True),
           Call (CallSetTransport (Some 600) None), Call (CallPlay 0),
           PlayResume \<lparr>grid = [''kick'' \<mapsto> [100, 100, 100, 100]], instruments = [''kick''],
                       columns = Some 4\<rparr> 0,
           TimerDue 1] initial)
     (\<lambda>e. Some (isPlaying e,
                 isPlaying (fst (scheduleStepWith [[CallStop]] [''kick'' \<mapsto> [100, 100, 100, 100]]
                                   [''kick''] (currentStep e) (nextNoteTime e) e)),
                 map src_when (started (fst (scheduleStepWith [[CallStop]]
                                   [''kick'' \<mapsto> [100, 100, 100, 100]]
                                   [''kick''] (currentStep e) (nextNoteTime e) e))))) =
     Some (True, False, [3 / 100]) \<and>
   map_option (\<lambda>e. (isPlaying e, stepped e, map src_when (started e)))
     (run [Call (CallSetBuffers (Some [''kick'' \<mapsto> 7])), Call (CallSetOnStep True),
           Call (CallSetTransport (Some 600) None), Call (CallPlay 0),
           PlayResume \<lparr>grid = [''kick'' \<mapsto> [100, 100, 100, 100]], instruments = [''kick''],
                       columns = Some 4\<rparr> 0,
           TimerDue 1,
           RunTimerTask [[CallStop]] \<lparr>grid = [''kick'' \<mapsto> [100, 100, 100, 100]],
                                       instruments = [''kick''], columns = Some 4\<rparr> 0] initial) =
     Some (False, [0, 1, 2, 3], [3 / 100, 55 / 1000, 8 / 100, 105 / 1000])"
  by code_simp

subsection \<open>Starting\<close>

lemma play_fresh:
  assumes "\<not> isPlaying e"
  shows "play snap startStep now e =
         e\<lparr>audioCtx := True, master := (if audioCtx e then master e else True),
           currentStep := max 0 (min (max 0 ((case columns snap of None \<Rightarrow> 1 | Some c \<Rightarrow> c) - 1)) startStep),
           nextNoteTime := now + 3 / 100, isPlaying := True,
           timerId := Some (nextHandle e), intervals := intervals e @ [nextHandle e],
           nextHandle := nextHandle e + 1\<rparr>"
  using assms by (simp add: play_def playBody_def ensureContext_eq Let_def)

lemma play_busy:
  assumes "isPlaying e"
  shows "play snap startStep now e = ensureContext e"
  using assms by (simp add: play_def playBody_def ensureContext_eq)

lemma clamp_code: "max 0 (min (max 0 (c - 1)) x) = clamp x 0 (c - 1)"
  by (simp add: clamp_def max_def min_def)

lemma playResume_fresh:
  assumes "resuming e = startStep # rest" "\<not> isPlaying e"
  shows "currentStep (playResume snap now e) =
           clamp startStep 0 ((case columns snap of None \<Rightarrow> 1 | Some c \<Rightarrow> c) - 1)"
    and "isPlaying (playResume snap now e)"
    and "nextNoteTime (playResume snap now e) = now + 3 / 100"
  using assms by (simp_all add: playResume_def playBody_def Let_def clamp_code)

lemma playResume_busy:
  assumes "resuming e = startStep # rest" "isPlaying e"
  shows "playResume snap now e = e\<lparr>resuming := rest\<rparr>"
  using assms by (simp add: playResume_def playBody_def)

lemma play_uninterrupted:
  assumes "resuming e = []"
  shows "run [Call (CallPlay startStep), PlayResume snap now] e = Some (play snap startStep now e)"
proof -
  have r: "resuming (ensureContext e) = []" using assms by (simp add: ensureContext_eq)
  have "(ensureContext e)\<lparr>resuming := []\<rparr> = (ensureContext e)\<lparr>resuming := resuming (ensureContext e)\<rparr>"
    by (simp only: r)
  then have "(ensureContext e)\<lparr>resuming := []\<rparr> = ensureContext e" by simp
  then show ?thesis
    using assms by (simp add: playCall_def playResume_def play_def)
qed

text \<open>
  Claim C8, as the code has it. The code of \<open>play()\<close> after its \<open>await\<close> tests
  \<open>isPlaying\<close> in the state it resumes in. Resuming on a stopped engine sets the step
  cursor to \<open>clamp(startStep, 0, columns - 1)\<close>, with \<open>columns\<close> taken from the snapshot
  and 1 when the snapshot has none, sets \<open>nextNoteTime\<close> to \<open>now + 0.03\<close> and starts a
  new interval; resuming on a playing engine leaves the cursor, \<open>nextNoteTime\<close>, the
  timer handle and the active intervals as they are. For a \<open>play()\<close> with no other
  \<open>play()\<close> waiting and nothing happening between the call and the end of its \<open>await\<close>
  (\<open>play\<close>), the state it resumes in is the one it was called in, but for
  \<open>ensureContext()\<close>: called on a stopped engine it sets the cursor as said (for
  \<open>columns \<ge> 1\<close> the cursor lies in \<open>[0, columns - 1]\<close> and is \<open>startStep\<close> itself when
  that is in range), called on a playing engine it leaves cursor, \<open>nextNoteTime\<close>, timer
  handle and intervals unchanged.
\<close>

theorem play_sets_cursor:
  "(\<not> isPlaying e \<longrightarrow>
      currentStep (play snap startStep now e) =
        clamp startStep 0 ((case columns snap of None \<Rightarrow> 1 | Some c \<Rightarrow> c) - 1) \<and>
      currentStep (playBody snap startStep now e) =
        clamp startStep 0 ((case columns snap of None \<Rightarrow> 1 | Some c \<Rightarrow> c) - 1) \<and>
      isPlaying (play snap startStep now e) \<and>
      timerId (play snap startStep now e) = Some (nextHandle e))
   \<and> (\<not> isPlaying e \<and> columns snap = Some c \<and> 1 \<le> c \<longrightarrow>
        0 \<le> currentStep (play snap startStep now e) \<and>
        currentStep (play snap startStep now e) \<le> c - 1 \<and>
        (0 \<le> startStep \<and> startStep \<le> c - 1 \<longrightarrow> currentStep (play snap startStep now e) = startStep))
   \<and> (isPlaying e \<longrightarrow>
        currentStep (play snap startStep now e) = currentStep e \<and>
        nextNoteTime (play snap startStep now e) = nextNoteTime e \<and>
        timerId (play snap startStep now e) = timerId e \<and>
        intervals (play snap startStep now e) = intervals e \<and>
        isPlaying (play snap startStep now e) \<and>
        playBody snap startStep now e = e)
   \<and> (resuming e = [] \<longrightarrow>
        run [Call (CallPlay startStep), PlayResume snap now] e = Some (play snap startStep now e))
   \<and> (resuming e = startStep # rest \<and> \<not> isPlaying e \<longrightarrow>
        currentStep (playResume snap now e) =
          clamp startStep 0 ((case columns snap of None \<Rightarrow> 1 | Some c \<Rightarrow> c) - 1) \<and>
        nextNoteTime (playResume snap now e) = now + 3 / 100 \<and>
        isPlaying (playResume snap now e) \<and>
        timerId (playResume snap now e) = Some (nextHandle e) \<and>
        intervals (playResume snap now e) = intervals e @ [nextHandle e])
   \<and> (resuming e = startStep # rest \<and> isPlaying e \<longrightarrow>
        playResume snap now e = e\<lparr>resuming := rest\<rparr> \<and>
        currentStep (playResume snap now e) = currentStep e \<and>
        nextNoteTime (playResume snap now e) = nextNoteTime e \<and>
        timerId (playResume snap now e) = timerId e \<and>
        intervals (playResume snap now e) = intervals e \<and>
        isPlaying (playResume snap now e))
   \<and> (resuming e = [] \<longrightarrow> playResume snap now e = e)"
proof (intro conjI impI)
  assume idle: "\<not> isPlaying e"
  show "currentStep (play snap startStep now e) =
        clamp startStep 0 ((case columns snap of None \<Rightarrow> 1 | Some c \<Rightarrow> c) - 1)"
    by (simp add: play_fresh [OF idle] clamp_code)
  show "currentStep (playBody snap startStep now e) =
        clamp startStep 0 ((case columns snap of None \<Rightarrow> 1 | Some c \<Rightarrow> c) - 1)"
    using idle by (simp add: playBody_def Let_def clamp_code)
  show "isPlaying (play snap startStep now e)" by (simp add: play_fresh [OF idle])
  show "timerId (play snap startStep now e) = Some (nextHandle e)"
    by (simp add: play_fresh [OF idle])
next
  assume a: "\<not> isPlaying e \<and> columns snap = Some c \<and> 1 \<le> c"
  then have idle: "\<not> isPlaying e" by simp
  from a show "0 \<le> currentStep (play snap startStep now e)"
    by (simp add: play_fresh [OF idle])
  from a show "currentStep (play snap startStep now e) \<le> c - 1"
    by (simp add: play_fresh [OF idle])
  from a show "currentStep (play snap startStep now e) = startStep"
    if "0 \<le> startStep \<and> startStep \<le> c - 1"
    using that by (simp add: play_fresh [OF idle])
next
  assume busy: "isPlaying e"
  show "currentStep (play snap startStep now e) = currentStep e"
    by (simp add: play_busy [OF busy] ensureContext_eq)
  show "nextNoteTime (play snap startStep now e) = nextNoteTime e"
    by (simp add: play_busy [OF busy] ensureContext_eq)
  show "timerId (play snap startStep now e) = timerId e"
    by (simp add: play_busy [OF busy] ensureContext_eq)
  show "intervals (play snap startStep now e) = intervals e"
    by (simp add: play_busy [OF busy] ensureContext_eq)
  show "isPlaying (play snap startStep now e)"
    using busy by (simp add: play_busy [OF busy] ensureContext_eq)
  show "playBody snap startStep now e = e"
    using busy by (simp add: playBody_def)
next
  assume "resuming e = []"
  then show "run [Call (CallPlay startStep), PlayResume snap now] e = Some (play snap startStep now e)"
    by (rule play_uninterrupted)
next
  assume a: "resuming e = startStep # rest \<and> \<not> isPlaying e"
  then have r: "resuming e = startStep # rest" and idle: "\<not> isPlaying e" by simp_all
  show "currentStep (playResume snap now e) =
          clamp startStep 0 ((case columns snap of None \<Rightarrow> 1 | Some c \<Rightarrow> c) - 1)"
    by (rule playResume_fresh(1) [OF r idle])
  show "nextNoteTime (playResume snap now e) = now + 3 / 100"
    by (rule playResume_fresh(3) [OF r idle])
  show "isPlaying (playResume snap now e)"
    by (rule playResume_fresh(2) [OF r idle])
  show "timerId (playResume snap now e) = Some (nextHandle e)"
    using r idle by (simp add: playResume_def playBody_def Let_def)
  show "intervals (playResume snap now e) = intervals e @ [nextHandle e]"
    using r idle by (simp add: playResume_def playBody_def Let_def)
next
  assume a: "resuming e = startStep # rest \<and> isPlaying e"
  then have r: "resuming e = startStep # rest" and busy: "isPlaying e" by simp_all
  note eq = playResume_busy [OF r busy, of snap now]
  show "playResume snap now e = e\<lparr>resuming := rest\<rparr>" by (rule eq)
  show "currentStep (playResume snap now e) = currentStep e" by (subst eq) simp
  show "nextNoteTime (playResume snap now e) = nextNoteTime e" by (subst eq) simp
  show "timerId (playResume snap now e) = timerId e" by (subst eq) simp
  show "intervals (playResume snap now e) = intervals e" by (subst eq) simp
  show "isPlaying (playResume snap now e)" using busy by (subst eq) simp
next
  assume "resuming e = []"
  then show "playResume snap now e = e" by (simp add: playResume_def)
qed

theorem play_sets_cursor_witness:
  "\<not> isPlaying initial \<and>
   currentStep (play \<lparr>grid = Map.empty, instruments = [], columns = Some 4\<rparr> 9 0 initial) = 3 \<and>
   currentStep (play \<lparr>grid = Map.empty, instruments = [], columns = None\<rparr> 9 0 initial) = 0 \<and>
   currentStep (play \<lparr>grid = Map.empty, instruments = [], columns = Some 4\<rparr> 2 0 initial) = 2 \<and>
   isPlaying (play \<lparr>grid = Map.empty, instruments = [], columns = Some 4\<rparr> 9 0 initial) \<and>
   currentStep (play \<lparr>grid = Map.empty, instruments = [], columns = Some 4\<rparr> 1 5
                  (play \<lparr>grid = Map.empty, instruments = [], columns = Some 4\<rparr> 9 0 initial)) = 3 \<and>
   nextNoteTime (play \<lparr>grid = Map.empty, instruments = [], columns = Some 4\<rparr> 1 5
                  (play \<lparr>grid = Map.empty, instruments = [], columns = Some 4\<rparr> 9 0 initial)) = 3 / 100 \<and>
   timerId (play \<lparr>grid = Map.empty, instruments = [], columns = Some 4\<rparr> 1 5
                  (play \<lparr>grid = Map.empty, instruments = [], columns = Some 4\<rparr> 9 0 initial)) = Some 1 \<and>
   resuming initial = [] \<and>
   run [Call (CallPlay 9), PlayResume \<lparr>grid = Map.empty, instruments = [], columns = Some 4\<rparr> 0] initial =
     Some (play \<lparr>grid = Map.empty, instruments = [], columns = Some 4\<rparr> 9 0 initial) \<and>
   resuming (playCall 9 initial) = [9] \<and> \<not> isPlaying (playCall 9 initial) \<and>
   currentStep (playResume \<lparr>grid = Map.empty, instruments = [], columns = Some 4\<rparr> 0
                  (playCall 9 initial)) = 3 \<and>
   timerId (playResume \<lparr>grid = Map.empty, instruments = [], columns = Some 4\<rparr> 0
                  (playCall 9 initial)) = Some 1 \<and>
   resuming (playCall 1 (play \<lparr>grid = Map.empty, instruments = [], columns = Some 4\<rparr> 9 0 initial)) = [1] \<and>
   currentStep (playResume \<lparr>grid = Map.empty, instruments = [], columns = Some 4\<rparr> 5
                  (playCall 1 (play \<lparr>grid = Map.empty, instruments = [], columns = Some 4\<rparr> 9 0 initial))) = 3 \<and>
   timerId (playResume \<lparr>grid = Map.empty, instruments = [], columns = Some 4\<rparr> 5
                  (playCall 1 (play \<lparr>grid = Map.empty, instruments = [], columns = Some 4\<rparr> 9 0 initial))) = Some 1 \<and>
   playResume \<lparr>grid = Map.empty, instruments = [], columns = Some 4\<rparr> 0 initial = initial"
proof -
  let ?s4 = "\<lparr>grid = Map.empty, instruments = [], columns = Some (4::int)\<rparr>"
  let ?s0 = "\<lparr>grid = Map.empty, instruments = [], columns = None :: int option\<rparr>"
  have idle: "\<not> isPlaying initial" by (simp add: initial_def)
  have h: "nextHandle initial = 1" by (simp add: initial_def)
  have r0: "resuming initial = []" by (simp add: initial_def)
  note a = play_sets_cursor [of initial ?s4 9 0 4]
  note b = play_sets_cursor [of initial ?s0 9 0 1]
  note c = play_sets_cursor [of initial ?s4 2 0 4]
  from a idle have a1: "currentStep (play ?s4 9 0 initial) = 3" "isPlaying (play ?s4 9 0 initial)"
    "timerId (play ?s4 9 0 initial) = Some 1"
    by (simp_all add: clamp_def h)
  from b idle have b1: "currentStep (play ?s0 9 0 initial) = 0" by (simp add: clamp_def)
  from c idle have c1: "currentStep (play ?s4 2 0 initial) = 2" by (simp add: clamp_def)
  have n: "nextNoteTime (play ?s4 9 0 initial) = 3 / 100"
    by (simp add: play_def playBody_def ensureContext_def initial_def)
  note d = play_sets_cursor [of "play ?s4 9 0 initial" ?s4 1 5 4]
  from d a1 n have d1: "currentStep (play ?s4 1 5 (play ?s4 9 0 initial)) = 3"
    "nextNoteTime (play ?s4 1 5 (play ?s4 9 0 initial)) = 3 / 100"
    "timerId (play ?s4 1 5 (play ?s4 9 0 initial)) = Some 1"
    by simp_all
  from a r0 have r1: "run [Call (CallPlay 9), PlayResume ?s4 0] initial = Some (play ?s4 9 0 initial)"
    by blast
  from a r0 have r2: "playResume ?s4 0 initial = initial" by blast
  have p1: "resuming (playCall 9 initial) = [9]" "\<not> isPlaying (playCall 9 initial)"
    "nextHandle (playCall 9 initial) = 1"
    by (simp_all add: playCall_def ensureContext_eq initial_def)
  note f = play_sets_cursor [of "playCall 9 initial" ?s4 9 0 4 "[]"]
  from f p1 have f1: "currentStep (playResume ?s4 0 (playCall 9 initial)) = 3"
    "timerId (playResume ?s4 0 (playCall 9 initial)) = Some 1"
    by (simp_all add: clamp_def)
  have p2: "resuming (playCall 1 (play ?s4 9 0 initial)) = [1]"
    "isPlaying (playCall 1 (play ?s4 9 0 initial))"
    "currentStep (playCall 1 (play ?s4 9 0 initial)) = 3"
    "timerId (playCall 1 (play ?s4 9 0 initial)) = Some 1"
    using a1 by (simp_all add: playCall_def ensureContext_eq play_fresh [OF idle] r0)
  note g = play_sets_cursor [of "playCall 1 (play ?s4 9 0 initial)" ?s4 1 5 4 "[]"]
  from g p2 have g1: "currentStep (playResume ?s4 5 (playCall 1 (play ?s4 9 0 initial))) = 3"
    "timerId (playResume ?s4 5 (playCall 1 (play ?s4 9 0 initial))) = Some 1"
    by simp_all
  from idle a1 b1 c1 d1 r0 r1 r2 p1(1,2) f1 p2(1) g1 show ?thesis by (simp only: simp_thms)
qed

text \<open>
  Two runs. In the first \<open>play(3)\<close> and \<open>play(5)\<close> are called on the stopped initial
  engine one after the other: both calls leave the engine stopped with the cursor at 0,
  and when both have resumed the cursor is 3, not \<open>clamp(5, 0, 7) = 5\<close>. In the second
  the engine is playing (cursor 0, \<open>nextNoteTime\<close> 0.03, timer 1) when \<open>play(5)\<close> is
  called, and \<open>stop()\<close> is called before that \<open>play\<close> resumes: it resumes on a stopped
  engine and moves the cursor to 5, \<open>nextNoteTime\<close> to 1.03 and the timer to a new
  interval 2.
\<close>

theorem play_sets_cursor_counterexample:
  "map_option (\<lambda>e. (isPlaying e, currentStep e))
     (run [Call (CallPlay 3)] initial) = Some (False, 0) \<and>
   map_option (\<lambda>e. (isPlaying e, currentStep e))
     (run [Call (CallPlay 3), Call (CallPlay 5)] initial) = Some (False, 0) \<and>
   map_option (\<lambda>e. (isPlaying e, currentStep e))
     (run [Call (CallPlay 3), Call (CallPlay 5),
           PlayResume \<lparr>grid = Map.empty, instruments = [], columns = Some 8\<rparr> 0,
           PlayResume \<lparr>grid = Map.empty, instruments = [], columns = Some 8\<rparr> 0] initial) =
     Some (True, 3) \<and>
   clamp 5 0 (8 - 1) = 5 \<and>
   map_option (\<lambda>e. (isPlaying e, currentStep e, nextNoteTime e, timerId e))
     (run [Call (CallPlay 0),
           PlayResume \<lparr>grid = Map.empty, instruments = [], columns = Some 8\<rparr> 0] initial) =
     Some (True, 0, 3 / 100, Some 1) \<and>
   map_option (\<lambda>e. (isPlaying e, currentStep e, nextNoteTime e, timerId e))
     (run [Call (CallPlay 0),
           PlayResume \<lparr>grid = Map.empty, instruments = [], columns = Some 8\<rparr> 0,
           Call (CallPlay 5)] initial) =
     Some (True, 0, 3 / 100, Some 1) \<and>
   map_option (\<lambda>e. (isPlaying e, currentStep e, nextNoteTime e, timerId e))
     (run [Call (CallPlay 0),
           PlayResume \<lparr>grid = Map.empty, instruments = [], columns = Some 8\<rparr> 0,
           Call (CallPlay 5), Call CallStop,
           PlayResume \<lparr>grid = Map.empty, instruments = [], columns = Some 8\<rparr> 1] initial) =
     Some (True, 5, 103 / 100, Some 2)"
  by code_simp

text \<open>
  Claim C7, as the code has it. For positive \<open>bpm\<close> and \<open>resolution\<close>,
  \<open>secondsPerStep() = (60 / bpm) \<times> (4 / resolution)\<close>, a positive number; with
  \<open>bpm = 120\<close> and \<open>resolution = 16\<close> it is 0.125 seconds. After \<open>play()\<close> on a stopped
  engine at audio clock \<open>now\<close>, \<open>nextNoteTime\<close> is \<open>now + 0.03\<close>, which lies in
  \<open>[now, now + 0.03 + eps]\<close> for every \<open>eps \<ge> 0\<close>; a poll at a clock \<open>t \<ge> now\<close> first calls
  \<open>scheduleStep\<close> for the start step at time \<open>now + 0.03\<close>; and the poll returns, every
  source it starts being scheduled at \<open>now + 0.03\<close> or later.
\<close>

theorem seconds_per_step_and_first_trigger:
  "(0 < bpm e \<and> 0 < resolution e \<longrightarrow>
      secondsPerStep e = (60 / bpm e) * (4 / resolution e) \<and> 0 < secondsPerStep e)
   \<and> (bpm e = 120 \<and> resolution e = 16 \<longrightarrow> secondsPerStep e = 1 / 8)
   \<and> (\<not> isPlaying e \<longrightarrow>
        nextNoteTime (play snap startStep now e) = now + 3 / 100 \<and>
        now \<le> nextNoteTime (play snap startStep now e) \<and>
        (0 \<le> eps \<longrightarrow> nextNoteTime (play snap startStep now e) \<le> now + 3 / 100 + eps))
   \<and> (\<not> isPlaying e \<and> now \<le> t \<longrightarrow>
        scheduler snap' t (play snap startStep now e) =
          schedulerLoop snap' t
            (advance snap'
               (scheduleStep (grid snap') (instruments snap')
                  (currentStep (play snap startStep now e)) (now + 3 / 100)
                  (play snap startStep now e))))
   \<and> (\<not> isPlaying e \<and> 0 < bpm e \<and> 0 < resolution e \<longrightarrow>
        (\<exists>e' rest. scheduler snap' t (play snap startStep now e) = Some e' \<and>
                   started e' = started e @ rest \<and>
                   (\<forall>x \<in> set rest. now + 3 / 100 \<le> src_when x)))"
proof (intro conjI impI)
  assume "0 < bpm e \<and> 0 < resolution e"
  then show "0 < secondsPerStep e" by (simp add: secondsPerStep_def)
next
  show "secondsPerStep e = 60 / bpm e * (4 / resolution e)" by (simp add: secondsPerStep_def)
next
  assume "bpm e = 120 \<and> resolution e = 16"
  then show "secondsPerStep e = 1 / 8" by (simp add: secondsPerStep_def)
next
  assume idle: "\<not> isPlaying e"
  show "nextNoteTime (play snap startStep now e) = now + 3 / 100"
    by (simp add: play_fresh [OF idle])
  show "now \<le> nextNoteTime (play snap startStep now e)"
    by (simp add: play_fresh [OF idle])
  show "nextNoteTime (play snap startStep now e) \<le> now + 3 / 100 + eps" if "0 \<le> eps"
    using that by (simp add: play_fresh [OF idle])
next
  assume a: "\<not> isPlaying e \<and> now \<le> t"
  then have idle: "\<not> isPlaying e" and t: "now \<le> t" by simp_all
  let ?p = "play snap startStep now e"
  have ctx: "audioCtx ?p" by (simp add: play_fresh [OF idle])
  have nnt: "nextNoteTime ?p = now + 3 / 100" by (simp add: play_fresh [OF idle])
  have due: "nextNoteTime ?p < t + scheduleAheadTimeSec"
    using t by (simp add: nnt scheduleAheadTimeSec_def)
  have "scheduler snap' t ?p = schedulerLoop snap' t ?p" using ctx by (simp add: scheduler_def)
  also have "\<dots> = schedulerLoop snap' t
      (advance snap' (scheduleStep (grid snap') (instruments snap') (currentStep ?p) (nextNoteTime ?p) ?p))"
    using due by (subst schedulerLoop.simps) simp
  finally show "scheduler snap' t ?p = schedulerLoop snap' t
      (advance snap' (scheduleStep (grid snap') (instruments snap') (currentStep ?p) (now + 3 / 100) ?p))"
    by (simp only: nnt)
next
  assume a: "\<not> isPlaying e \<and> 0 < bpm e \<and> 0 < resolution e"
  then have idle: "\<not> isPlaying e" by simp
  let ?p = "play snap startStep now e"
  have ctx: "audioCtx ?p" by (simp add: play_fresh [OF idle])
  have nnt: "nextNoteTime ?p = now + 3 / 100" by (simp add: play_fresh [OF idle])
  have st: "started ?p = started e" by (simp add: play_fresh [OF idle])
  have pos: "0 < secondsPerStep ?p"
    using a by (simp add: play_fresh [OF idle] secondsPerStep_def)
  from schedulerLoop_returns [OF pos, of snap' t]
  obtain e' where e': "schedulerLoop snap' t ?p = Some e'" by blast
  from schedulerLoop_times [OF e'] pos nnt st
  obtain rest where "started e' = started e @ rest" "\<forall>x \<in> set rest. now + 3 / 100 \<le> src_when x"
    by auto
  with e' ctx show "\<exists>e' rest. scheduler snap' t ?p = Some e' \<and> started e' = started e @ rest \<and>
                     (\<forall>x \<in> set rest. now + 3 / 100 \<le> src_when x)"
    by (auto simp: scheduler_def)
qed

theorem seconds_per_step_and_first_trigger_witness:
  "0 < bpm initial \<and> 0 < resolution initial \<and> bpm initial = 120 \<and> resolution initial = 16 \<and>
   secondsPerStep initial = 1 / 8 \<and> \<not> isPlaying initial \<and>
   nextNoteTime (play \<lparr>grid = [''kick'' \<mapsto> [100, 0]], instruments = [''kick''], columns = Some 2\<rparr>
                   0 5 initial) = 5 + 3 / 100 \<and>
   nextNoteTime (play \<lparr>grid = [''kick'' \<mapsto> [100, 0]], instruments = [''kick''], columns = Some 2\<rparr>
                   0 5 initial) \<le> 5 + 3 / 100 + 1 / 1000 \<and>
   (\<exists>e'. scheduler \<lparr>grid = [''kick'' \<mapsto> [100, 0]], instruments = [''kick''], columns = Some 2\<rparr> 5
            (play \<lparr>grid = [''kick'' \<mapsto> [100, 0]], instruments = [''kick''], columns = Some 2\<rparr>
               0 5 initial) = Some e' \<and>
          currentStep e' = 1 \<and> nextNoteTime e' = 5 + 3 / 100 + 1 / 8)"
proof -
  let ?s = "\<lparr>grid = [''kick'' \<mapsto> [100, 0]], instruments = [''kick''], columns = Some (2::int)\<rparr>"
  have i: "0 < bpm initial \<and> 0 < resolution initial" "bpm initial = 120 \<and> resolution initial = 16"
    "\<not> isPlaying initial"
    by (simp_all add: initial_def)
  note t = seconds_per_step_and_first_trigger [of initial ?s 0 5 "1 / 1000" 5 ?s]
  from t i have 1: "secondsPerStep initial = 1 / 8" by blast
  from t i have 2: "nextNoteTime (play ?s 0 5 initial) = 5 + 3 / 100" by blast
  from t i have 3: "nextNoteTime (play ?s 0 5 initial) \<le> 5 + 3 / 100 + 1 / 1000" by simp
  from t i obtain e' where 4: "scheduler ?s 5 (play ?s 0 5 initial) = Some e'" by blast
  have "map_option (\<lambda>e. (currentStep e, nextNoteTime e)) (scheduler ?s 5 (play ?s 0 5 initial)) =
        Some (1, 5 + 3 / 100 + 1 / 8)"
    by code_simp
  with 4 have 5: "currentStep e' = 1 \<and> nextNoteTime e' = 5 + 3 / 100 + 1 / 8" by simp
  from i 1 2 3 4 5 show ?thesis by (intro conjI exI [of _ e']) simp_all
qed

text \<open>
  At \<open>bpm = 120\<close> and \<open>resolution = 16\<close> a step lasts \<open>(60 / 120) \<times> (4 / 16) = 0.125\<close>
  seconds, not 0.0625.
\<close>

theorem seconds_per_step_and_first_trigger_counterexample:
  "bpm (setTransport (Some 120) (Some 16) initial) = 120 \<and>
   resolution (setTransport (Some 120) (Some 16) initial) = 16 \<and>
   secondsPerStep (setTransport (Some 120) (Some 16) initial) = 125 / 1000 \<and>
   secondsPerStep (setTransport (Some 120) (Some 16) initial) \<noteq> 625 / 10000"
  by (simp add: setTransport_def secondsPerStep_def initial_def)

lemma sourcesFor_missing:
  assumes "buffers e instId = None"
  shows "sourcesFor e instId time velocity = []"
  using assms by (simp add: sourcesFor_def)

lemma stepSources_missing:
  assumes "buffers e instId = None"
  shows "stepSources e g insts stepIndex time = stepSources e g (removeAll instId insts) stepIndex time"
  using assms by (induction insts) (auto simp: stepSources_def sourcesFor_missing)

text \<open>
  Claim C9. When no decoded buffer exists for an instrument, \<open>trigger\<close> for it returns the
  state unchanged: nothing is started and nothing is raised (no step of \<open>trigger\<close> can
  fail). \<open>scheduleStep\<close> then does exactly what it would do without that instrument in
  the list, so every other active instrument that has a buffer is started at the step's
  time. The transport is unaffected: for positive \<open>bpm\<close> and \<open>resolution\<close> a poll returns
  whatever the buffers are, and with other buffers it ends in the same state up to the
  buffers and the log of started sources (same cursor, \<open>nextNoteTime\<close>, playing flag,
  timer and step callbacks).
\<close>

theorem missing_buffer_skipped:
  "(buffers e instId = None \<longrightarrow>
      trigger instId time velocity e = e \<and>
      scheduleStep g insts stepIndex time e = scheduleStep g (removeAll instId insts) stepIndex time e)
   \<and> (audioCtx e \<and> master e \<and> inst \<in> set insts \<and> 0 < velocityAt g inst stepIndex \<and>
       buffers e inst = Some buf \<longrightarrow>
        \<lparr>src_buffer = buf, src_gain = max 0 (min 1 (of_int (velocityAt g inst stepIndex) / 127)),
         src_when = time\<rparr> \<in> set (started (scheduleStep g insts stepIndex time e)))
   \<and> (0 < bpm e \<and> 0 < resolution e \<longrightarrow>
        (\<exists>e1 e2. scheduler snap now e = Some e1 \<and>
                  scheduler snap now (e\<lparr>buffers := bufs\<rparr>) = Some e2 \<and>
                  e2 = e1\<lparr>buffers := bufs, started := started e2\<rparr>))"
proof (intro conjI impI)
  assume missing: "buffers e instId = None"
  show "trigger instId time velocity e = e"
    by (simp add: trigger_eq sourcesFor_missing [OF missing])
  show "scheduleStep g insts stepIndex time e = scheduleStep g (removeAll instId insts) stepIndex time e"
    by (simp add: scheduleStep_eq stepSources_missing [OF missing, of g insts])
next
  assume a: "audioCtx e \<and> master e \<and> inst \<in> set insts \<and> 0 < velocityAt g inst stepIndex \<and>
             buffers e inst = Some buf"
  then have "\<lparr>src_buffer = buf, src_gain = max 0 (min 1 (of_int (velocityAt g inst stepIndex) / 127)),
              src_when = time\<rparr> \<in> set (sourcesFor e inst time (velocityAt g inst stepIndex))"
    by (simp add: sourcesFor_def)
  with a have "\<lparr>src_buffer = buf, src_gain = max 0 (min 1 (of_int (velocityAt g inst stepIndex) / 127)),
              src_when = time\<rparr> \<in> set (stepSources e g insts stepIndex time)"
    unfolding stepSources_def by (auto intro!: bexI [of _ inst])
  then show "\<lparr>src_buffer = buf, src_gain = max 0 (min 1 (of_int (velocityAt g inst stepIndex) / 127)),
        src_when = time\<rparr> \<in> set (started (scheduleStep g insts stepIndex time e))"
    by (simp add: scheduleStep_eq)
next
  assume "0 < bpm e \<and> 0 < resolution e"
  then have "0 < bpm e" "0 < resolution e" by simp_all
  from scheduler_sameTransport [OF this, of snap now bufs]
  obtain e1 e2 where r: "scheduler snap now e = Some e1"
    "scheduler snap now (e\<lparr>buffers := bufs\<rparr>) = Some e2" "sameTransport e1 e2" by blast
  from scheduler_frame [OF r(2)] have "buffers e2 = bufs"
    using pollFrame_fields(7) [of "e\<lparr>buffers := bufs\<rparr>" e2] by simp
  with r show "\<exists>e1 e2. scheduler snap now e = Some e1 \<and>
                  scheduler snap now (e\<lparr>buffers := bufs\<rparr>) = Some e2 \<and>
                  e2 = e1\<lparr>buffers := bufs, started := started e2\<rparr>"
    by (auto simp: sameTransport_def)
qed

theorem missing_buffer_skipped_witness:
  "buffers (play \<lparr>grid = Map.empty, instruments = [], columns = Some 2\<rparr> 0 0
              (setBuffers (Some [''kick'' \<mapsto> 7]) initial)) ''snare'' = None \<and>
   buffers (play \<lparr>grid = Map.empty, instruments = [], columns = Some 2\<rparr> 0 0
              (setBuffers (Some [''kick'' \<mapsto> 7]) initial)) ''kick'' = Some 7 \<and>
   trigger ''snare'' 1 100 (play \<lparr>grid = Map.empty, instruments = [], columns = Some 2\<rparr> 0 0
              (setBuffers (Some [''kick'' \<mapsto> 7]) initial)) =
     play \<lparr>grid = Map.empty, instruments = [], columns = Some 2\<rparr> 0 0
              (setBuffers (Some [''kick'' \<mapsto> 7]) initial) \<and>
   \<lparr>src_buffer = 7, src_gain = 100 / 127, src_when = 1\<rparr> \<in>
     set (started (scheduleStep [''kick'' \<mapsto> [100, 0], ''snare'' \<mapsto> [100, 100]] [''snare'', ''kick''] 0 1
            (play \<lparr>grid = Map.empty, instruments = [], columns = Some 2\<rparr> 0 0
               (setBuffers (Some [''kick'' \<mapsto> 7]) initial)))) \<and>
   (\<exists>e1 e2. scheduler \<lparr>grid = [''kick'' \<mapsto> [100, 0], ''snare'' \<mapsto> [100, 100]],
                        instruments = [''snare'', ''kick''], columns = Some 2\<rparr> 0
               (play \<lparr>grid = Map.empty, instruments = [], columns = Some 2\<rparr> 0 0
                  (setBuffers (Some [''kick'' \<mapsto> 7]) initial)) = Some e1 \<and>
             scheduler \<lparr>grid = [''kick'' \<mapsto> [100, 0], ''snare'' \<mapsto> [100, 100]],
                        instruments = [''snare'', ''kick''], columns = Some 2\<rparr> 0
               ((play \<lparr>grid = Map.empty, instruments = [], columns = Some 2\<rparr> 0 0
                  (setBuffers (Some [''kick'' \<mapsto> 7]) initial))\<lparr>buffers := Map.empty\<rparr>) = Some e2 \<and>
             currentStep e2 = currentStep e1 \<and> nextNoteTime e2 = nextNoteTime e1 \<and>
             isPlaying e2 = isPlaying e1 \<and> timerId e2 = timerId e1)"
proof -
  let ?E = "play \<lparr>grid = Map.empty, instruments = [], columns = Some 2\<rparr> 0 0
              (setBuffers (Some [''kick'' \<mapsto> 7]) initial)"
  let ?g = "[''kick'' \<mapsto> [100, 0], ''snare'' \<mapsto> [100, 100::int]]"
  let ?s = "\<lparr>grid = ?g, instruments = [''snare'', ''kick''], columns = Some (2::int)\<rparr>"
  have f: "buffers ?E ''snare'' = None" "buffers ?E ''kick'' = Some 7" "audioCtx ?E \<and> master ?E"
    "0 < bpm ?E \<and> 0 < resolution ?E"
    by (simp_all add: play_def playBody_def ensureContext_def setBuffers_def initial_def)
  have v: "velocityAt ?g ''kick'' 0 = 100" by (simp add: velocityAt_def)
  note t = missing_buffer_skipped [of ?E "''snare''" 1 100 ?g "[''snare'', ''kick'']" 0
      "''kick''" 7 ?s 0 Map.empty]
  from t f have 1: "trigger ''snare'' 1 100 ?E = ?E" by blast
  have g: "max 0 (min 1 (of_int 100 / 127)) = (100 / 127 :: rat)" by simp
  have prem: "audioCtx ?E \<and> master ?E \<and> ''kick'' \<in> set [''snare'', ''kick''] \<and>
              0 < velocityAt ?g ''kick'' 0 \<and> buffers ?E ''kick'' = Some 7"
    using f v by simp
  have 2: "\<lparr>src_buffer = 7, src_gain = 100 / 127, src_when = 1\<rparr> \<in>
     set (started (scheduleStep ?g [''snare'', ''kick''] 0 1 ?E))"
    using mp [OF conjunct1 [OF conjunct2 [OF t]] prem] unfolding v g .
  from t f obtain e1 e2 where 3: "scheduler ?s 0 ?E = Some e1"
    "scheduler ?s 0 (?E\<lparr>buffers := Map.empty\<rparr>) = Some e2"
    "e2 = e1\<lparr>buffers := Map.empty, started := started e2\<rparr>"
    by blast
  have 4: "currentStep e2 = currentStep e1 \<and> nextNoteTime e2 = nextNoteTime e1 \<and>
           isPlaying e2 = isPlaying e1 \<and> timerId e2 = timerId e1"
    by (subst 3(3), simp)+
  from f 1 2 3 4 show ?thesis
    by (intro conjI exI [of _ e1] exI [of _ e2]) (simp_all only: simp_thms)
qed

end
